theory Spec2Isabelle
  imports Main
begin

section \<open>The durable multi-transport client of \<^verbatim>\<open>util/network_client.c\<close>\<close>

text \<open>
  The C unit keeps a list of candidate servers, a cursor into it, and a connection state
  that is driven by the callbacks of an event loop (libuv) and of a TLS library (libtls).
  The embedding follows the C text function by function:
  \<^item> a pointer that may be \<^verbatim>\<open>NULL\<close> is an \<open>option\<close>; a pointer read from storage
    that may never have been written is a \<open>ptr\<close>, which has a third value for a pointer
    that must not be used;
  \<^item> a C \<^verbatim>\<open>int\<close> is an \<open>int\<close>: the counters only grow by one per registered server or
    service, so the 32-bit range is never left by the runs considered here (a count of
    services that is read from indeterminate storage is checked against \<^verbatim>\<open>INT_MAX\<close>);
  \<^item> a function that dereferences a pointer returns an \<open>option\<close>, and \<open>None\<close> stands
    for the undefined behaviour of a \<^verbatim>\<open>NULL\<close> or out-of-bounds access;
  \<^item> every allocation takes its outcome from an explicit list of booleans, and the
    content of the storage it adds is a parameter, since C leaves it indeterminate;
  \<^item> what the code asks of the loop and of the TLS library is appended to a trace, and the
    values those libraries hand back are parameters of the callbacks;
  \<^item> \<^verbatim>\<open>log_info\<close> and \<^verbatim>\<open>log_error\<close> only print: the model keeps the evaluation of
    their arguments (which dereference the current server) and records nothing else.
\<close>

subsection \<open>Data model\<close>

datatype network_client_proto =
    network_client_proto_udp
  | network_client_proto_tcp
  | network_client_proto_tls

text \<open>
  A pointer as it is read from a server slot or from an array of services: \<^verbatim>\<open>NULL\<close>, a
  pointer to an object that the slot owns, or \<open>Wild\<close>: a value that is no such pointer,
  because the storage it is read from is indeterminate or because what it pointed at is no
  longer there. Passing a \<open>Wild\<close> pointer to \<^verbatim>\<open>free\<close>, to \<^verbatim>\<open>reallocarray\<close>, to a
  \<^verbatim>\<open>%s\<close> format or to a library call is undefined.
\<close>

datatype 'a ptr = Null | Ptr 'a | Wild

record network_client_server =
  uri :: "string ptr"
  proto :: network_client_proto
  host :: "string ptr"
  services :: "string ptr list ptr"
  num_services :: int

datatype nc_state =
    network_client_connected
  | network_client_resolving
  | network_client_connecting
  | network_client_closed

datatype socktype = SOCK_DGRAM | SOCK_STREAM

text \<open>
  The trace: the calls into the event loop and the TLS library, and the invocations of the
  owner's callbacks. A callback invocation records the function, its argument and the
  connection state the callback observes. Callbacks are opaque: they are taken not to
  modify the client.
\<close>

datatype event =
    Call_connect_cb nat nat nc_state
  | Call_close_cb nat nat nc_state
  | Uv_freeaddrinfo nat
  | Tls_client "nat option"
  | Tls_connect_socket "nat option" int
  | Tls_free nat
  | Uv_getaddrinfo "string option" "string option" socktype
  | Uv_tcp_init
  | Uv_tcp_connect int
  | Uv_udp_init
  | Uv_poll_start
  | Uv_close

text \<open>
  The first block of fields is \<^verbatim>\<open>struct network_client\<close>. Of the handle \<^verbatim>\<open>conn\<close>
  the model keeps \<open>conn_data\<close>: whether its member \<^verbatim>\<open>data\<close> points at the client, as
  \<^verbatim>\<open>connect_tcp\<close> makes it, or is still the \<^verbatim>\<open>NULL\<close> that \<^verbatim>\<open>calloc\<close> left (the
  handles of the union share the member; \<^verbatim>\<open>uv_tcp_init\<close> and \<^verbatim>\<open>uv_udp_init\<close> do not
  write it). The handles \<^verbatim>\<open>loop\<close> and \<^verbatim>\<open>connect_timer\<close> and the unused
  \<^verbatim>\<open>connect_time_s\<close> carry no data of their own. The second block is the state of the
  environment reached through
  \<^verbatim>\<open>nc->loop\<close>: the trace, the requests whose completion callback is still due, the poll
  watchers that were started (the code never stops one), whether \<^verbatim>\<open>uv_close\<close> is under
  way on the connection handle, and the TLS sessions that are allocated and not yet freed.
\<close>

record network_client =
  servers :: "network_client_server list option"
  num_servers :: int
  curr_server :: int
  curr_service :: int
  addrinfo :: "nat option"
  tls :: "nat option"
  tls_state :: int
  state :: nc_state
  conn_data :: bool
  read_cb :: "nat option"
  read_cb_arg :: nat
  connect_cb :: "nat option"
  connect_cb_arg :: nat
  close_cb :: "nat option"
  close_cb_arg :: nat
  trace :: "event list"
  getaddrinfo_reqs :: nat
  connect_reqs :: nat
  poll_watchers :: nat
  conn_closing :: bool
  tls_live :: "nat set"

text \<open>The retry codes of libtls's \<^verbatim>\<open>tls.h\<close>, which is not part of this repository.\<close>

definition TLS_READ_AGAIN :: int where
  "TLS_READ_AGAIN = - 2"

definition TLS_WRITE_AGAIN :: int where
  "TLS_WRITE_AGAIN = - 3"

definition emit :: "event \<Rightarrow> network_client \<Rightarrow> network_client" where
  "emit e nc = nc\<lparr>trace := trace nc @ [e]\<rparr>"

subsection \<open>Allocation and C strings\<close>

text \<open>
  An allocation request takes the next boolean of the list; once the list is used up every
  request succeeds.
\<close>

fun take_alloc :: "bool list \<Rightarrow> bool \<times> bool list" where
  "take_alloc [] = (True, [])"
| "take_alloc (b # bs) = (b, bs)"

definition strdup :: "bool list \<Rightarrow> string \<Rightarrow> string option \<times> bool list" where
  "strdup al s = (case take_alloc al of (ok, al') \<Rightarrow> (if ok then Some s else None, al'))"

text \<open>
  \<^verbatim>\<open>strstr\<close>: the text before the first occurrence of the needle and the text from the
  occurrence on, or \<open>None\<close> when there is none.
\<close>

fun strstr :: "string \<Rightarrow> string \<Rightarrow> (string \<times> string) option" where
  "strstr [] needle = (if needle = [] then Some ([], []) else None)"
| "strstr (c # cs) needle =
     (if take (length needle) (c # cs) = needle then Some ([], c # cs)
      else (case strstr cs needle of
              None \<Rightarrow> None
            | Some (before, found) \<Rightarrow> Some (c # before, found)))"

text \<open>
  The tokens that successive calls of \<^verbatim>\<open>strsep(&s, ",")\<close> return until it returns
  \<^verbatim>\<open>NULL\<close>: the pieces between the commas, empty pieces included.
\<close>

fun strsep_all :: "string \<Rightarrow> string list" where
  "strsep_all [] = [[]]"
| "strsep_all (c # cs) =
     (if c = CHR '','' then [] # strsep_all cs
      else (case strsep_all cs of
              [] \<Rightarrow> [[c]]
            | t # ts \<Rightarrow> (c # t) # ts))"

text \<open>
  A copy made by \<^verbatim>\<open>strdup\<close> as it is stored into a slot, and a string pointer as it is
  handed to a library call or to a \<^verbatim>\<open>%s\<close> format: \<open>None\<close> when that is undefined.
\<close>

definition ptr_of :: "'a option \<Rightarrow> 'a ptr" where
  "ptr_of x = (case x of None \<Rightarrow> Null | Some v \<Rightarrow> Ptr v)"

definition string_arg :: "string ptr \<Rightarrow> string option option" where
  "string_arg p = (case p of Null \<Rightarrow> Some None | Ptr v \<Rightarrow> Some (Some v) | Wild \<Rightarrow> None)"

definition tolower :: "char \<Rightarrow> char" where
  "tolower c =
     (let n = (of_char c :: nat)
      in if 65 \<le> n \<and> n \<le> 90 then char_of (n + 32) else c)"

definition strcasecmp_eq :: "string \<Rightarrow> string \<Rightarrow> bool" where
  "strcasecmp_eq a b = (map tolower a = map tolower b)"

subsection \<open>Protocol names\<close>

definition proto_list :: "(network_client_proto \<times> string) list" where
  "proto_list =
     [(network_client_proto_udp, ''udp''),
      (network_client_proto_tcp, ''tcp''),
      (network_client_proto_tls, ''tls'')]"

fun proto_to_str_loop :: "(network_client_proto \<times> string) list \<Rightarrow> network_client_proto \<Rightarrow> string" where
  "proto_to_str_loop [] p = ''unknown''"
| "proto_to_str_loop ((q, s) # rest) p = (if q = p then s else proto_to_str_loop rest p)"

definition proto_to_str :: "network_client_proto \<Rightarrow> string" where
  "proto_to_str p = proto_to_str_loop proto_list p"

fun str_to_proto_loop :: "(network_client_proto \<times> string) list \<Rightarrow> string \<Rightarrow> network_client_proto" where
  "str_to_proto_loop [] p = network_client_proto_tcp"
| "str_to_proto_loop ((q, s) # rest) p =
     (if strcasecmp_eq s p then q else str_to_proto_loop rest p)"

definition str_to_proto :: "string \<Rightarrow> network_client_proto" where
  "str_to_proto p = str_to_proto_loop proto_list p"

subsection \<open>Server registry and URI parsing\<close>

text \<open>
  A slot of the server array filled with zero bytes: \<^verbatim>\<open>server_free\<close> leaves a slot in
  this form. \<open>zeroed\<close> is added storage that happens to be filled with zero bytes, as
  pages fresh from the system are.
\<close>

definition zero_server :: network_client_server where
  "zero_server =
     \<lparr>uri = Null, proto = network_client_proto_udp, host = Null,
      services = Null, num_services = 0\<rparr>"

definition zeroed :: "nat \<Rightarrow> network_client_server" where
  "zeroed i = zero_server"

text \<open>
  \<^verbatim>\<open>server_free\<close> frees \<^verbatim>\<open>srv->host\<close> and \<^verbatim>\<open>srv->uri\<close>, reads and frees
  \<^verbatim>\<open>srv->services[i]\<close> for every \<^verbatim>\<open>i < num_services\<close>, and frees \<^verbatim>\<open>srv->services\<close>.
  With a positive count the array must be there and hold that many pointers that can be
  freed; no pointer freed may be \<open>Wild\<close>.
\<close>

definition server_free :: "network_client_server \<Rightarrow> network_client_server option" where
  "server_free srv =
     (if host srv = Wild \<or> uri srv = Wild \<or> services srv = Wild then None
      else if 0 < num_services srv then
        (case services srv of
           Ptr arr \<Rightarrow>
             if nat (num_services srv) \<le> length arr \<and>
                list_all (\<lambda>p. p \<noteq> Wild) (take (nat (num_services srv)) arr)
             then Some zero_server else None
         | _ \<Rightarrow> None)
      else Some zero_server)"

text \<open>
  \<^verbatim>\<open>reallocarray(srv->services, n, ...)\<close> when it succeeds: the first \<open>n\<close> pointers of
  the old array; the pointers it adds are indeterminate.
\<close>

definition realloc_services :: "string ptr list ptr \<Rightarrow> nat \<Rightarrow> string ptr list" where
  "realloc_services old n =
     (case old of
        Ptr xs \<Rightarrow> take n xs @ replicate (n - length xs) Wild
      | _ \<Rightarrow> replicate n Wild)"

text \<open>
  \<^verbatim>\<open>add_server_service\<close>: the result of \<^verbatim>\<open>reallocarray\<close> is stored into
  \<^verbatim>\<open>srv->services\<close> before it is tested, so a failure there leaves a \<^verbatim>\<open>NULL\<close> array
  beside the old count. The array and the count are read as the slot holds them: a \<open>Wild\<close>
  array is no argument for \<^verbatim>\<open>reallocarray\<close>; with the count \<^verbatim>\<open>INT_MAX\<close> the sum
  \<^verbatim>\<open>srv->num_services + 1\<close> overflows; a count below \<open>- 1\<close> asks for more than can be
  allocated; with the count \<open>- 1\<close> the array has no element and the store to
  \<^verbatim>\<open>srv->services[- 1]\<close> is out of bounds.
\<close>

definition add_server_service ::
  "bool list \<Rightarrow> network_client_server \<Rightarrow> string \<Rightarrow>
   (int \<times> network_client_server \<times> bool list) option" where
  "add_server_service al srv service =
     (case strdup al service of
        (None, al1) \<Rightarrow> Some (- 1, srv, al1)
      | (Some service_cpy, al1) \<Rightarrow>
          if services srv = Wild \<or> 2147483647 \<le> num_services srv then None
          else
            (case take_alloc al1 of
               (ok, al2) \<Rightarrow>
                 if num_services srv + 1 < 0 \<or> \<not> ok
                 then Some (- 1, srv\<lparr>services := Null\<rparr>, al2)
                 else if num_services srv + 1 = 0 then None
                 else
                   Some (0,
                     srv\<lparr>services :=
                           Ptr ((realloc_services (services srv) (nat (num_services srv + 1)))
                                  [nat (num_services srv) := Ptr service_cpy]),
                         num_services := num_services srv + 1\<rparr>,
                     al2)))"

text \<open>The \<^verbatim>\<open>while\<close> loop over the tokens: it stops at the first failing token.\<close>

fun add_services ::
  "bool list \<Rightarrow> network_client_server \<Rightarrow> string list \<Rightarrow>
   (int \<times> network_client_server \<times> bool list) option" where
  "add_services al srv [] = Some (0, srv, al)"
| "add_services al srv (t # ts) =
     (case add_server_service al srv t of
        None \<Rightarrow> None
      | Some (rc, srv', al') \<Rightarrow>
          if rc \<noteq> 0 then Some (rc, srv', al') else add_services al' srv' ts)"

text \<open>The label \<^verbatim>\<open>out\<close> of \<^verbatim>\<open>parse_server\<close>.\<close>

definition parse_out ::
  "int \<Rightarrow> network_client_server \<Rightarrow> bool list \<Rightarrow> (int \<times> network_client_server \<times> bool list) option" where
  "parse_out rc srv al =
     (if rc \<noteq> 0 then
        (case server_free srv of None \<Rightarrow> None | Some srv' \<Rightarrow> Some (rc, srv', al))
      else Some (rc, srv, al))"

text \<open>
  \<^verbatim>\<open>parse_server\<close>. The copy \<^verbatim>\<open>uri_tmp\<close> is searched by \<^verbatim>\<open>strstr\<close> before it is tested
  for \<^verbatim>\<open>NULL\<close>, so a failure of the first \<^verbatim>\<open>strdup\<close> is a \<^verbatim>\<open>NULL\<close> dereference. The
  copy of the host is never tested. The test \<^verbatim>\<open>proto == NULL || host == NULL\<close> cannot
  succeed where it stands, both pointers having been assigned from non-null values.
\<close>

definition parse_server ::
  "bool list \<Rightarrow> network_client_server \<Rightarrow> string \<Rightarrow> (int \<times> network_client_server \<times> bool list) option" where
  "parse_server al srv uri_in =
     (case strdup al uri_in of
        (None, al1) \<Rightarrow> None
      | (Some uri_tmp, al1) \<Rightarrow>
          (case strdup al1 uri_in of
             (None, al2) \<Rightarrow> parse_out (- 1) (srv\<lparr>uri := Null\<rparr>) al2
           | (Some u, al2) \<Rightarrow>
               (let srv1 = srv\<lparr>uri := Ptr u\<rparr>;
                    (proto_s, host0) =
                      (case strstr uri_tmp ''://'' of
                         None \<Rightarrow> (''tcp'', uri_tmp)
                       | Some (before, found) \<Rightarrow> (before, drop 3 found));
                    (host_s, services_s) =
                      (case strstr host0 '':'' of
                         None \<Rightarrow> (host0, None)
                       | Some (before, found) \<Rightarrow> (before, Some (drop 1 found)))
                in (case strdup al2 host_s of
                      (h, al3) \<Rightarrow>
                        (let srv2 = srv1\<lparr>host := ptr_of h, proto := str_to_proto proto_s\<rparr>
                         in (case services_s of
                               None \<Rightarrow> parse_out (- 1) srv2 al3
                             | Some sv \<Rightarrow>
                                 (case strdup al3 sv of
                                    (None, al4) \<Rightarrow> parse_out (- 1) srv2 al4
                                  | (Some services_tmp, al4) \<Rightarrow>
                                      (case add_services al4 srv2 (strsep_all services_tmp) of
                                         None \<Rightarrow> None
                                       | Some (rc, srv3, al5) \<Rightarrow>
                                           if rc \<noteq> 0 then parse_out (- 1) srv3 al5
                                           else parse_out 0 srv3 al5))))))))"

text \<open>
  \<^verbatim>\<open>reallocarray(nc->servers, n, ...)\<close> when it succeeds: the first \<open>n\<close> slots of the old
  array; the content of the slots it adds is indeterminate, and \<open>fresh i\<close> is what slot
  \<open>i\<close> then holds.
\<close>

definition realloc_servers ::
  "network_client_server list option \<Rightarrow> nat \<Rightarrow> (nat \<Rightarrow> network_client_server) \<Rightarrow>
   network_client_server list" where
  "realloc_servers old n fresh =
     (case old of
        None \<Rightarrow> map fresh [0..<n]
      | Some xs \<Rightarrow> take n xs @ map fresh [length xs..<n])"

text \<open>
  \<^verbatim>\<open>network_client_add_server\<close>. The result of \<^verbatim>\<open>reallocarray\<close> is stored into
  \<^verbatim>\<open>nc->servers\<close> before it is tested.
\<close>

definition network_client_add_server ::
  "bool list \<Rightarrow> (nat \<Rightarrow> network_client_server) \<Rightarrow> network_client \<Rightarrow> string \<Rightarrow>
   (int \<times> network_client) option" where
  "network_client_add_server al fresh nc uri_in =
     (case take_alloc al of
        (False, al1) \<Rightarrow> Some (- 1, nc\<lparr>servers := None\<rparr>)
      | (True, al1) \<Rightarrow>
          (let arr = realloc_servers (servers nc) (nat (num_servers nc + 1)) fresh;
               i = nat (num_servers nc)
           in (case parse_server al1 (arr ! i) uri_in of
                 None \<Rightarrow> None
               | Some (rc, srv, al2) \<Rightarrow>
                   (let nc1 = nc\<lparr>servers := Some (arr[i := srv])\<rparr>
                    in if rc \<noteq> 0 then Some (- 1, nc1)
                       else Some (0, nc1\<lparr>num_servers := num_servers nc + 1\<rparr>)))))"

text \<open>The loop of \<^verbatim>\<open>network_client_remove_servers\<close> over the first \<open>n\<close> slots.\<close>

fun free_servers :: "network_client_server list \<Rightarrow> nat \<Rightarrow> bool" where
  "free_servers xs 0 = True"
| "free_servers [] (Suc n) = False"
| "free_servers (x # xs) (Suc n) = (server_free x \<noteq> None \<and> free_servers xs n)"

definition network_client_remove_servers :: "network_client \<Rightarrow> (int \<times> network_client) option" where
  "network_client_remove_servers nc =
     (case servers nc of
        None \<Rightarrow> Some (0, nc)
      | Some xs \<Rightarrow>
          if free_servers xs (nat (num_servers nc))
          then Some (0, nc\<lparr>servers := None, num_servers := 0\<rparr>)
          else None)"

subsection \<open>Endpoint selector\<close>

text \<open>
  \<^verbatim>\<open>get_curr_server\<close> only computes the address \<^verbatim>\<open>&nc->servers[nc->curr_server]\<close>: the
  result is the index, or \<open>None\<close> for \<^verbatim>\<open>NULL\<close>. Reading through that address is
  \<open>deref_server\<close>, which is undefined outside the array.
\<close>

definition get_curr_server :: "network_client \<Rightarrow> int option" where
  "get_curr_server nc = (case servers nc of None \<Rightarrow> None | Some xs \<Rightarrow> Some (curr_server nc))"

definition deref_server :: "network_client \<Rightarrow> int option \<Rightarrow> network_client_server option" where
  "deref_server nc p =
     (case (servers nc, p) of
        (Some xs, Some i) \<Rightarrow> if 0 \<le> i \<and> i < int (length xs) then Some (xs ! nat i) else None
      | _ \<Rightarrow> None)"

text \<open>
  \<^verbatim>\<open>get_curr_service\<close>: \<open>None\<close> when the read is undefined, else the \<^verbatim>\<open>char *\<close>
  returned.
\<close>

definition get_curr_service :: "network_client \<Rightarrow> string ptr option" where
  "get_curr_service nc =
     (case servers nc of
        None \<Rightarrow> Some Null
      | Some xs \<Rightarrow>
          (case deref_server nc (Some (curr_server nc)) of
             None \<Rightarrow> None
           | Some srv \<Rightarrow>
               (case services srv of
                  Ptr ss \<Rightarrow>
                    if 0 \<le> curr_service nc \<and> curr_service nc < int (length ss)
                    then Some (ss ! nat (curr_service nc))
                    else None
                | _ \<Rightarrow> None)))"

text \<open>The cursor update of \<^verbatim>\<open>choose_next_server\<close> when the service index is not advanced.\<close>

definition next_server :: "network_client \<Rightarrow> network_client" where
  "next_server nc =
     (let nc1 = nc\<lparr>curr_service := 0\<rparr>
      in if 1 < num_servers nc1 then
           (let nc2 = nc1\<lparr>curr_server := curr_server nc1 + 1\<rparr>
            in if num_servers nc2 \<le> curr_server nc2 then nc2\<lparr>curr_server := 0\<rparr> else nc2)
         else nc1)"

definition choose_next_server :: "network_client \<Rightarrow> (int option \<times> network_client) option" where
  "choose_next_server nc =
     (case get_curr_server nc of
        None \<Rightarrow> (let nc' = next_server nc in Some (get_curr_server nc', nc'))
      | Some i \<Rightarrow>
          (case deref_server nc (Some i) of
             None \<Rightarrow> None
           | Some srv \<Rightarrow>
               (let nc' = (if curr_service nc < num_services srv - 1
                           then nc\<lparr>curr_service := curr_service nc + 1\<rparr>
                           else next_server nc)
                in Some (get_curr_server nc', nc'))))"

subsection \<open>Callback management\<close>

definition network_client_set_read_cb :: "network_client \<Rightarrow> nat option \<Rightarrow> nat \<Rightarrow> network_client" where
  "network_client_set_read_cb nc cb arg = nc\<lparr>read_cb := cb, read_cb_arg := arg\<rparr>"

definition network_client_set_connect_cb :: "network_client \<Rightarrow> nat option \<Rightarrow> nat \<Rightarrow> network_client" where
  "network_client_set_connect_cb nc cb arg = nc\<lparr>connect_cb := cb, connect_cb_arg := arg\<rparr>"

definition network_client_set_close_cb :: "network_client \<Rightarrow> nat option \<Rightarrow> nat \<Rightarrow> network_client" where
  "network_client_set_close_cb nc cb arg = nc\<lparr>close_cb := cb, close_cb_arg := arg\<rparr>"

text \<open>\<^verbatim>\<open>if (nc->connect_cb) nc->connect_cb(nc, nc->connect_cb_arg)\<close>, and the same for close.\<close>

definition call_connect_cb :: "network_client \<Rightarrow> network_client" where
  "call_connect_cb nc =
     (case connect_cb nc of
        None \<Rightarrow> nc
      | Some f \<Rightarrow> emit (Call_connect_cb f (connect_cb_arg nc) (state nc)) nc)"

definition call_close_cb :: "network_client \<Rightarrow> network_client" where
  "call_close_cb nc =
     (case close_cb nc of
        None \<Rightarrow> nc
      | Some f \<Rightarrow> emit (Call_close_cb f (close_cb_arg nc) (state nc)) nc)"

subsection \<open>Connection state machine\<close>

definition set_closed :: "network_client \<Rightarrow> network_client" where
  "set_closed nc =
     (let nc1 = nc\<lparr>state := network_client_closed\<rparr>;
          nc2 = (case addrinfo nc1 of
                   None \<Rightarrow> nc1
                 | Some a \<Rightarrow> (emit (Uv_freeaddrinfo a) nc1)\<lparr>addrinfo := None\<rparr>);
          nc3 = (case tls nc2 of
                   None \<Rightarrow> nc2
                 | Some h \<Rightarrow>
                     (emit (Tls_free h) nc2)\<lparr>tls_state := 0, tls_live := tls_live nc2 - {h}\<rparr>)
      in call_close_cb nc3)"

text \<open>
  \<^verbatim>\<open>on_close\<close> takes the client from \<^verbatim>\<open>handle->data\<close>. Only \<^verbatim>\<open>connect_tcp\<close> stores
  the client there: for a client that has never started a TCP connect the member is
  \<^verbatim>\<open>NULL\<close>, and \<^verbatim>\<open>set_closed\<close> then writes through \<^verbatim>\<open>NULL\<close>.
\<close>

definition on_close :: "network_client \<Rightarrow> network_client option" where
  "on_close nc = (if conn_data nc then Some (set_closed nc) else None)"

text \<open>
  \<^verbatim>\<open>network_client_close\<close>. libuv aborts when \<^verbatim>\<open>uv_close\<close> is called on a handle that is
  already closing; that run has no next state.
\<close>

definition network_client_close :: "network_client \<Rightarrow> (int \<times> network_client) option" where
  "network_client_close nc =
     (if state nc \<noteq> network_client_connected then Some (- 1, nc)
      else if conn_closing nc then None
      else Some (0, (emit Uv_close nc)\<lparr>conn_closing := True\<rparr>))"

text \<open>
  \<^verbatim>\<open>on_poll\<close>; \<open>hs\<close> is what \<^verbatim>\<open>tls_connect_socket\<close> returns. On \<open>- 1\<close> the code only
  logs: the call of \<^verbatim>\<open>network_client_close\<close> is commented out.
\<close>

definition on_poll :: "network_client \<Rightarrow> int \<Rightarrow> network_client" where
  "on_poll nc hs =
     (if state nc = network_client_connecting then
        (if tls_state nc = TLS_READ_AGAIN \<or> tls_state nc = TLS_WRITE_AGAIN then
           (let nc1 = (emit (Tls_connect_socket (tls nc) hs) nc)\<lparr>tls_state := hs\<rparr>
            in if tls_state nc1 = 0 then nc1\<lparr>state := network_client_connected\<rparr>
               else nc1)
         else nc)
      else nc)"

text \<open>
  The arguments of the two failure logs: \<^verbatim>\<open>srv->proto\<close>, \<^verbatim>\<open>srv->host\<close> and
  \<^verbatim>\<open>get_curr_service(nc)\<close>.
\<close>

definition log_args_defined :: "network_client \<Rightarrow> int option \<Rightarrow> bool" where
  "log_args_defined nc srv =
     ((case deref_server nc srv of None \<Rightarrow> False | Some s \<Rightarrow> host s \<noteq> Wild) \<and>
      (case get_curr_service nc of None \<Rightarrow> False | Some service \<Rightarrow> service \<noteq> Wild))"

text \<open>
  \<^verbatim>\<open>connect_tcp_cb\<close>; \<open>tls_new\<close> is what \<^verbatim>\<open>tls_client\<close> returns, \<open>fileno_ok\<close> whether
  \<^verbatim>\<open>uv_fileno\<close> returns 0, \<open>hs\<close> what \<^verbatim>\<open>tls_connect_socket\<close> returns.
  \<^verbatim>\<open>tls_connect_socket\<close> is handed \<^verbatim>\<open>srv->host\<close>.
\<close>

definition connect_tcp_cb ::
  "network_client \<Rightarrow> int \<Rightarrow> nat option \<Rightarrow> bool \<Rightarrow> int \<Rightarrow> network_client option" where
  "connect_tcp_cb nc status tls_new fileno_ok hs =
     (let srv = get_curr_server nc
      in if status \<noteq> 0 then
           (if log_args_defined nc srv then Some (set_closed nc) else None)
         else
           (case deref_server nc srv of
              None \<Rightarrow> None
            | Some s \<Rightarrow>
                if proto s = network_client_proto_tcp then
                  Some (call_connect_cb (nc\<lparr>state := network_client_connected\<rparr>))
                else
                  (let nc1 = (emit (Tls_client tls_new) nc)
                               \<lparr>tls := tls_new, tls_live := tls_live nc \<union> set_option tls_new\<rparr>
                   in if tls nc1 = None then Some (set_closed nc1)
                      else if fileno_ok then
                        (if host s = Wild then None
                         else
                           Some ((emit Uv_poll_start
                                    ((emit (Tls_connect_socket (tls nc1) hs) nc1)
                                       \<lparr>tls_state := hs\<rparr>))
                                 \<lparr>poll_watchers := poll_watchers nc1 + 1\<rparr>))
                      else Some nc1)))"

text \<open>
  \<^verbatim>\<open>connect_tcp\<close>; \<open>rc\<close> is what \<^verbatim>\<open>uv_tcp_connect\<close> returns. The request is outstanding
  only when that is 0. \<^verbatim>\<open>addrinfo->ai_addr\<close> is read for the call. The client is stored
  into the handle's \<^verbatim>\<open>data\<close> between \<^verbatim>\<open>uv_tcp_init\<close> and \<^verbatim>\<open>uv_tcp_connect\<close>.
\<close>

definition connect_tcp :: "network_client \<Rightarrow> nat option \<Rightarrow> int \<Rightarrow> (int \<times> network_client) option" where
  "connect_tcp nc ai rc =
     (case ai of
        None \<Rightarrow> None
      | Some a \<Rightarrow>
          (let nc1 = emit (Uv_tcp_connect rc) ((emit Uv_tcp_init nc)\<lparr>conn_data := True\<rparr>)
           in Some (rc, if rc = 0 then nc1\<lparr>connect_reqs := connect_reqs nc1 + 1\<rparr> else nc1)))"

definition connect_udp :: "network_client \<Rightarrow> nat option \<Rightarrow> int \<times> network_client" where
  "connect_udp nc ai = (0, call_connect_cb (emit Uv_udp_init nc))"

text \<open>
  \<^verbatim>\<open>resolving_cb\<close>; \<open>ai\<close> is the resolution result, \<open>rc\<close> what \<^verbatim>\<open>uv_tcp_connect\<close> will
  return if it is called.
\<close>

definition resolving_cb ::
  "network_client \<Rightarrow> int \<Rightarrow> nat option \<Rightarrow> int \<Rightarrow> network_client option" where
  "resolving_cb nc status ai rc =
     (let srv = get_curr_server nc
      in if status < 0 then
           (if log_args_defined nc srv then Some (set_closed nc) else None)
         else
           (let nc1 = nc\<lparr>addrinfo := ai\<rparr>
            in (case deref_server nc1 srv of
                  None \<Rightarrow> None
                | Some s \<Rightarrow>
                    (case proto s of
                       network_client_proto_udp \<Rightarrow>
                         (case connect_udp nc1 ai of
                            (r, nc2) \<Rightarrow>
                              Some (if r = 0 then nc2\<lparr>state := network_client_connected\<rparr>
                                    else set_closed nc2))
                     | _ \<Rightarrow>
                         (case connect_tcp nc1 ai rc of
                            None \<Rightarrow> None
                          | Some (r, nc2) \<Rightarrow>
                              Some (if r = 0 then nc2\<lparr>state := network_client_connecting\<rparr>
                                    else set_closed nc2))))))"

subsection \<open>Reconnect scheduler\<close>

text \<open>
  \<^verbatim>\<open>reconnect_cb\<close>; \<open>rc\<close> is what \<^verbatim>\<open>uv_getaddrinfo\<close> returns (the code ignores it): the
  request is outstanding only when that is 0. \<^verbatim>\<open>srv->host\<close> and the current service are
  handed to the log and to \<^verbatim>\<open>uv_getaddrinfo\<close>.
\<close>

definition reconnect_cb :: "network_client \<Rightarrow> int \<Rightarrow> network_client option" where
  "reconnect_cb nc rc =
     (if state nc \<noteq> network_client_closed \<or> num_servers nc = 0 then Some nc
      else
        (case choose_next_server nc of
           None \<Rightarrow> None
         | Some (srv, nc1) \<Rightarrow>
             (case get_curr_service nc1 of
                None \<Rightarrow> None
              | Some service \<Rightarrow>
                  (case deref_server nc1 srv of
                     None \<Rightarrow> None
                   | Some s \<Rightarrow>
                       (case (string_arg (host s), string_arg service) of
                          (Some h, Some sv) \<Rightarrow>
                            (let st = (if proto s = network_client_proto_udp then SOCK_DGRAM
                                       else SOCK_STREAM);
                                 nc2 = emit (Uv_getaddrinfo h sv st)
                                         (nc1\<lparr>state := network_client_resolving\<rparr>)
                             in Some (if rc = 0
                                      then nc2\<lparr>getaddrinfo_reqs := getaddrinfo_reqs nc2 + 1\<rparr>
                                      else nc2))
                        | _ \<Rightarrow> None)))))"

subsection \<open>Construction\<close>

text \<open>
  \<^verbatim>\<open>network_client\<close> after a successful \<^verbatim>\<open>calloc\<close> and with a loop at hand: all fields
  zero, the state Closed. The environment starts with nothing outstanding.
\<close>

definition network_client_new :: network_client where
  "network_client_new =
     \<lparr>servers = None, num_servers = 0, curr_server = 0, curr_service = 0,
      addrinfo = None, tls = None, tls_state = 0, state = network_client_closed,
      conn_data = False, read_cb = None, read_cb_arg = 0, connect_cb = None, connect_cb_arg = 0,
      close_cb = None, close_cb_arg = 0,
      trace = [], getaddrinfo_reqs = 0, connect_reqs = 0, poll_watchers = 0,
      conn_closing = False, tls_live = {}\<rparr>"

subsection \<open>The event loop\<close>

text \<open>
  What can happen to a client: a call of the owner, a firing of the reconnect timer, or the
  delivery of a completion by the loop. Each carries the values the environment supplies;
  a registration carries the outcomes of its allocations and the content of the storage
  that is added to the server array.
\<close>

datatype loop_event =
    Add_server string "bool list" "nat \<Rightarrow> network_client_server"
  | Remove_servers
  | Set_connect_cb "nat option" nat
  | Set_close_cb "nat option" nat
  | Close_request
  | Timer_fires int
  | Getaddrinfo_done int "nat option" int
  | Connect_done int "nat option" bool int
  | Poll_ready int
  | Close_done

text \<open>
  \<open>fire\<close> is \<open>None\<close> when the loop cannot deliver the event (a completion with no request
  outstanding, a readiness notification with no watcher, a fresh TLS session that is
  already allocated) or when the code run by the event is undefined.
\<close>

definition fire :: "loop_event \<Rightarrow> network_client \<Rightarrow> network_client option" where
  "fire ev nc =
     (case ev of
        Add_server u al fresh \<Rightarrow> map_option snd (network_client_add_server al fresh nc u)
      | Remove_servers \<Rightarrow> map_option snd (network_client_remove_servers nc)
      | Set_connect_cb cb arg \<Rightarrow> Some (network_client_set_connect_cb nc cb arg)
      | Set_close_cb cb arg \<Rightarrow> Some (network_client_set_close_cb nc cb arg)
      | Close_request \<Rightarrow> map_option snd (network_client_close nc)
      | Timer_fires rc \<Rightarrow> reconnect_cb nc rc
      | Getaddrinfo_done status ai rc \<Rightarrow>
          if getaddrinfo_reqs nc = 0 then None
          else resolving_cb (nc\<lparr>getaddrinfo_reqs := getaddrinfo_reqs nc - 1\<rparr>) status ai rc
      | Connect_done status tls_new fileno_ok hs \<Rightarrow>
          if connect_reqs nc = 0 \<or> (case tls_new of None \<Rightarrow> False | Some h \<Rightarrow> h \<in> tls_live nc)
          then None
          else connect_tcp_cb (nc\<lparr>connect_reqs := connect_reqs nc - 1\<rparr>) status tls_new fileno_ok hs
      | Poll_ready hs \<Rightarrow> if poll_watchers nc = 0 then None else Some (on_poll nc hs)
      | Close_done \<Rightarrow>
          if conn_closing nc then on_close (nc\<lparr>conn_closing := False\<rparr>) else None)"

fun run :: "loop_event list \<Rightarrow> network_client \<Rightarrow> network_client option" where
  "run [] nc = Some nc"
| "run (ev # evs) nc = (case fire ev nc of None \<Rightarrow> None | Some nc' \<Rightarrow> run evs nc')"

subsection \<open>Observations on a trace\<close>

fun is_connect_cb_call :: "event \<Rightarrow> bool" where
  "is_connect_cb_call (Call_connect_cb f a st) = True"
| "is_connect_cb_call e = False"

fun is_close_cb_call :: "event \<Rightarrow> bool" where
  "is_close_cb_call (Call_close_cb f a st) = True"
| "is_close_cb_call e = False"

text \<open>The connection attempts of a trace: host and service of every resolution issued.\<close>

fun attempts :: "event list \<Rightarrow> (string option \<times> string option) list" where
  "attempts [] = []"
| "attempts (Uv_getaddrinfo h s t # es) = (h, s) # attempts es"
| "attempts (e # es) = attempts es"

text \<open>The protocol of the current target, when the cursor points at a server.\<close>

definition curr_proto :: "network_client \<Rightarrow> network_client_proto option" where
  "curr_proto nc = map_option proto (deref_server nc (get_curr_server nc))"

text \<open>The client holds a TLS session: \<^verbatim>\<open>nc->tls\<close> points at a session that is allocated.\<close>

definition holds_tls_session :: "network_client \<Rightarrow> bool" where
  "holds_tls_session nc = (case tls nc of None \<Rightarrow> False | Some h \<Rightarrow> h \<in> tls_live nc)"

subsection \<open>The selector as a walk over all endpoints\<close>

text \<open>
  \<open>visits k nc\<close> is the list of cursors that \<open>k\<close> successive calls of
  \<^verbatim>\<open>choose_next_server\<close> select, or \<open>None\<close> when one of the calls is undefined.
  \<open>service_counts\<close> lists the number of services of each registered server, \<open>all_pairs\<close>
  enumerates the (server, service) pairs server by server, and \<open>cursor_pos\<close> is the place
  of a pair in that enumeration.
\<close>

definition cursor :: "network_client \<Rightarrow> int \<times> int" where
  "cursor nc = (curr_server nc, curr_service nc)"

fun visits :: "nat \<Rightarrow> network_client \<Rightarrow> (int \<times> int) list option" where
  "visits 0 nc = Some []"
| "visits (Suc k) nc =
     (case choose_next_server nc of
        None \<Rightarrow> None
      | Some (srv, nc') \<Rightarrow> map_option ((#) (cursor nc')) (visits k nc'))"

definition service_counts :: "network_client \<Rightarrow> nat list" where
  "service_counts nc =
     (case servers nc of
        None \<Rightarrow> []
      | Some xs \<Rightarrow> map (\<lambda>s. nat (num_services s)) (take (nat (num_servers nc)) xs))"

definition all_pairs :: "nat list \<Rightarrow> (nat \<times> nat) list" where
  "all_pairs cs = concat (map (\<lambda>i. map (Pair i) [0..<cs ! i]) [0..<length cs])"

definition cursor_pos :: "nat list \<Rightarrow> nat \<Rightarrow> nat \<Rightarrow> nat" where
  "cursor_pos cs i j = sum_list (take i cs) + j"

definition int_pair :: "nat \<times> nat \<Rightarrow> int \<times> int" where
  "int_pair p = (int (fst p), int (snd p))"

text \<open>
  The selector stands at server \<open>i\<close>, service \<open>j\<close> of a registry whose first
  \<^verbatim>\<open>num_servers\<close> slots each hold at least one service.
\<close>

definition selector_at :: "network_client \<Rightarrow> network_client_server list \<Rightarrow> nat \<Rightarrow> nat \<Rightarrow> bool" where
  "selector_at nc xs i j \<longleftrightarrow>
     servers nc = Some xs \<and> 0 < num_servers nc \<and> nat (num_servers nc) \<le> length xs \<and>
     list_all (\<lambda>s. 1 \<le> num_services s) (take (nat (num_servers nc)) xs) \<and>
     curr_server nc = int i \<and> curr_service nc = int j \<and>
     int i < num_servers nc \<and> int j < num_services (xs ! i)"

subsection \<open>Operations in flight\<close>

text \<open>
  The asynchronous operations that are outstanding: the resolutions and the transport
  connects whose completion is still due, and the poll watchers that are armed.
  \<^verbatim>\<open>connect_tcp_cb\<close> arms a watcher with \<^verbatim>\<open>uv_poll_start\<close> for the handshake of every TLS
  connect, and nothing in the code stops one.
\<close>

definition in_flight :: "network_client \<Rightarrow> nat" where
  "in_flight nc = getaddrinfo_reqs nc + connect_reqs nc + poll_watchers nc"

fun is_poll_start :: "event \<Rightarrow> bool" where
  "is_poll_start Uv_poll_start = True"
| "is_poll_start e = False"

text \<open>
  What every run maintains about the requests in flight.
\<close>

definition loop_inv :: "network_client \<Rightarrow> bool" where
  "loop_inv nc \<longleftrightarrow>
     getaddrinfo_reqs nc \<le> 1 \<and> connect_reqs nc \<le> 1 \<and>
     (getaddrinfo_reqs nc = 1 \<longrightarrow> state nc = network_client_resolving) \<and>
     (connect_reqs nc = 1 \<longrightarrow> state nc = network_client_connecting \<and> tls_state nc = 0) \<and>
     (tls_state nc \<noteq> 0 \<longrightarrow> tls nc \<noteq> None) \<and>
     (state nc = network_client_closed \<or> state nc = network_client_resolving \<longrightarrow>
        tls_state nc = 0) \<and>
     (conn_closing nc \<longrightarrow> state nc = network_client_connected) \<and>
     poll_watchers nc = length (filter is_poll_start (trace nc))"

subsection \<open>TLS session ownership\<close>

text \<open>
  What every run maintains about the TLS session: only the session that \<^verbatim>\<open>nc->tls\<close>
  points at can be allocated, and one is held only in the states Connecting and Connected,
  with no transport connect pending.
\<close>

definition session_inv :: "network_client \<Rightarrow> bool" where
  "session_inv nc \<longleftrightarrow>
     tls_live nc \<subseteq> set_option (tls nc) \<and>
     (holds_tls_session nc \<longrightarrow>
        (state nc = network_client_connecting \<or> state nc = network_client_connected) \<and>
        connect_reqs nc = 0)"

text \<open>
  Events that leave the registered servers in place: no clear, and no registration whose
  reallocation of the server array fails.
\<close>

definition registry_safe :: "loop_event \<Rightarrow> bool" where
  "registry_safe ev =
     (case ev of
        Add_server u al fresh \<Rightarrow> fst (take_alloc al)
      | Remove_servers \<Rightarrow> False
      | _ \<Rightarrow> True)"

text \<open>
  What every run of such events maintains about the TLS session and the cursor.
\<close>

definition tls_inv :: "network_client \<Rightarrow> bool" where
  "tls_inv nc \<longleftrightarrow>
     tls_live nc \<subseteq> set_option (tls nc) \<and>
     (holds_tls_session nc \<longleftrightarrow>
        (state nc = network_client_connecting \<or> state nc = network_client_connected) \<and>
        connect_reqs nc = 0 \<and> curr_proto nc = Some network_client_proto_tls) \<and>
     (connect_reqs nc \<noteq> 0 \<longrightarrow>
        curr_proto nc = Some network_client_proto_tcp \<or>
        curr_proto nc = Some network_client_proto_tls) \<and>
     0 \<le> curr_server nc \<and> 0 \<le> num_servers nc \<and>
     (num_servers nc = 0 \<longrightarrow> curr_server nc = 0) \<and>
     (0 < num_servers nc \<longrightarrow> curr_server nc < num_servers nc) \<and>
     (servers nc = None \<longrightarrow> num_servers nc = 0) \<and>
     (\<forall>xs. servers nc = Some xs \<longrightarrow> num_servers nc \<le> int (length xs)) \<and>
     (state nc \<noteq> network_client_closed \<longrightarrow> 0 < num_servers nc)"

subsection \<open>The two-server scenario\<close>

text \<open>
  The slots that parsing \<^verbatim>\<open>udp://a:53\<close> and \<^verbatim>\<open>tcp://b:80\<close> leaves, and a client just
  constructed but for a registry that holds these two, in this order.
\<close>

definition server_a :: network_client_server where
  "server_a = \<lparr>uri = Ptr ''udp://a:53'', proto = network_client_proto_udp,
               host = Ptr ''a'', services = Ptr [Ptr ''53''], num_services = 1\<rparr>"

definition server_b :: network_client_server where
  "server_b = \<lparr>uri = Ptr ''tcp://b:80'', proto = network_client_proto_tcp,
               host = Ptr ''b'', services = Ptr [Ptr ''80''], num_services = 1\<rparr>"

definition two_registered :: network_client where
  "two_registered = network_client_new\<lparr>servers := Some [server_a, server_b], num_servers := 2\<rparr>"

text \<open>
  The registry holds the two servers, the cursor stands at server \<open>i\<close>, the state is
  Closed and no request is outstanding. With \<open>i = 0\<close> this is the client before its first
  attempt.
\<close>

definition two_servers_at :: "network_client \<Rightarrow> int \<Rightarrow> bool" where
  "two_servers_at nc i \<longleftrightarrow>
     (case servers nc of
        Some (x # y # rest) \<Rightarrow> x = server_a \<and> y = server_b
      | _ \<Rightarrow> False) \<and>
     num_servers nc = 2 \<and> curr_server nc = i \<and> curr_service nc = 0 \<and>
     state nc = network_client_closed \<and> getaddrinfo_reqs nc = 0 \<and> connect_reqs nc = 0"

text \<open>
  The ways an attempt on one of these targets can fail, each with the events of the
  attempt: the resolution fails with a status; the resolution succeeds and
  \<^verbatim>\<open>uv_tcp_connect\<close> refuses the connect with a return code; the connect is issued and
  its completion reports a status. An attempt has failed when its events leave the client
  in the state Closed.
\<close>

datatype failure =
    Resolution_fails int
  | Connect_refused nat int
  | Connect_fails nat int

fun failing_attempt :: "failure \<Rightarrow> loop_event list" where
  "failing_attempt (Resolution_fails status) =
     [Timer_fires 0, Getaddrinfo_done status None 0]"
| "failing_attempt (Connect_refused ai rc) =
     [Timer_fires 0, Getaddrinfo_done 0 (Some ai) rc]"
| "failing_attempt (Connect_fails ai status) =
     [Timer_fires 0, Getaddrinfo_done 0 (Some ai) 0, Connect_done status None False 0]"

fun attempts_fail :: "failure list \<Rightarrow> network_client \<Rightarrow> bool" where
  "attempts_fail [] nc = True"
| "attempts_fail (f # fs) nc =
     (case run (failing_attempt f) nc of
        None \<Rightarrow> False
      | Some nc' \<Rightarrow> state nc' = network_client_closed \<and> attempts_fail fs nc')"

text \<open>The order of the first \<open>n\<close> targets.\<close>

definition alternating :: "nat \<Rightarrow> (string option \<times> string option) list" where
  "alternating n =
     map (\<lambda>k. if even k then (Some ''b'', Some ''80'') else (Some ''a'', Some ''53'')) [0..<n]"

section \<open>Basic facts\<close>

subsection \<open>Closing\<close>




subsection \<open>Reads of the current server\<close>

text \<open>
  They depend on the registry and the cursor only.
\<close>

lemma deref_server_frame:
  "servers a = servers b \<Longrightarrow> deref_server a p = deref_server b p"
  by (simp add: deref_server_def)

lemma get_curr_server_frame:
  "servers a = servers b \<Longrightarrow> curr_server a = curr_server b \<Longrightarrow>
   get_curr_server a = get_curr_server b"
  by (simp add: get_curr_server_def split: option.splits)

lemma get_curr_service_frame:
  "servers a = servers b \<Longrightarrow> curr_server a = curr_server b \<Longrightarrow>
   curr_service a = curr_service b \<Longrightarrow> get_curr_service a = get_curr_service b"
  by (simp add: get_curr_service_def deref_server_frame [of a b] split: option.splits ptr.splits)


subsection \<open>The selector and the scheduler\<close>

text \<open>
  Advancing the selector changes the cursor only; a firing of the timer that starts an attempt changes the cursor, the state, the trace and the outstanding resolutions.
\<close>

lemma next_server_cursor:
  "\<exists>i j. next_server nc = nc\<lparr>curr_server := i, curr_service := j\<rparr>"
proof -
  have "next_server nc = nc\<lparr>curr_server := curr_server (next_server nc),
                              curr_service := curr_service (next_server nc)\<rparr>"
    by (simp add: next_server_def Let_def)
  then show ?thesis by blast
qed

lemma choose_next_server_cursor:
  assumes "choose_next_server nc = Some (p, nc')"
  shows "\<exists>i j. nc' = nc\<lparr>curr_server := i, curr_service := j\<rparr> \<and> p = get_curr_server nc'"
proof -
  have d: "nc' = next_server nc \<or> nc' = nc\<lparr>curr_service := curr_service nc + 1\<rparr>"
    and p: "p = get_curr_server nc'"
    using assms by (auto simp: choose_next_server_def Let_def split: option.splits if_splits)
  from d show ?thesis
  proof
    assume "nc' = next_server nc"
    with next_server_cursor [of nc] p show ?thesis by auto
  next
    assume "nc' = nc\<lparr>curr_service := curr_service nc + 1\<rparr>"
    then have "nc' = nc\<lparr>curr_server := curr_server nc, curr_service := curr_service nc + 1\<rparr>"
      by simp
    with p show ?thesis by blast
  qed
qed

lemma reconnect_cb_attempt:
  assumes "reconnect_cb nc rc = Some nc1" "state nc = network_client_closed" "num_servers nc \<noteq> 0"
  shows "\<exists>i j s sv h v st.
           nc1 = nc\<lparr>curr_server := i, curr_service := j, state := network_client_resolving,
                     trace := trace nc @ [Uv_getaddrinfo h v st],
                     getaddrinfo_reqs := getaddrinfo_reqs nc + (if rc = 0 then 1 else 0)\<rparr> \<and>
           deref_server nc1 (get_curr_server nc1) = Some s \<and> get_curr_service nc1 = Some sv \<and>
           string_arg (host s) = Some h \<and> string_arg sv = Some v"
proof -
  from assms obtain p nc0 sv s h v where
    c: "choose_next_server nc = Some (p, nc0)" and
    sv: "get_curr_service nc0 = Some sv" and
    s: "deref_server nc0 p = Some s" and
    h: "string_arg (host s) = Some h" and
    v: "string_arg sv = Some v" and
    nc1: "nc1 = (let nc2 = emit (Uv_getaddrinfo h v
                   (if proto s = network_client_proto_udp then SOCK_DGRAM else SOCK_STREAM))
                   (nc0\<lparr>state := network_client_resolving\<rparr>)
                 in if rc = 0 then nc2\<lparr>getaddrinfo_reqs := getaddrinfo_reqs nc2 + 1\<rparr> else nc2)"
    by (auto simp: reconnect_cb_def Let_def split: option.splits prod.splits)
  from choose_next_server_cursor [OF c] obtain i j where
    nc0: "nc0 = nc\<lparr>curr_server := i, curr_service := j\<rparr>" and p: "p = get_curr_server nc0"
    by blast
  have a: "nc1 = nc\<lparr>curr_server := i, curr_service := j, state := network_client_resolving,
                     trace := trace nc @ [Uv_getaddrinfo h v
                       (if proto s = network_client_proto_udp then SOCK_DGRAM else SOCK_STREAM)],
                     getaddrinfo_reqs := getaddrinfo_reqs nc + (if rc = 0 then 1 else 0)\<rparr>"
    using nc1 nc0 by (simp add: emit_def Let_def)
  have b: "deref_server nc1 (get_curr_server nc1) = Some s"
    using s p deref_server_frame [of nc1 nc0] get_curr_server_frame [of nc1 nc0]
    by (simp add: a nc0)
  have c: "get_curr_service nc1 = Some sv"
    using sv get_curr_service_frame [of nc1 nc0] by (simp add: a nc0)
  from a b c h v show ?thesis by blast
qed

subsection \<open>The enumeration of endpoints\<close>

lemma all_pairs_snoc:
  "all_pairs (cs @ [c]) = all_pairs cs @ map (Pair (length cs)) [0..<c]"
proof -
  have eq: "map (\<lambda>i. map (Pair i) [0..<(cs @ [c]) ! i]) [0..<length cs] =
        map (\<lambda>i. map (Pair i) [0..<cs ! i]) [0..<length cs]"
    by (rule map_cong) (simp_all add: nth_append)
  show ?thesis by (simp add: all_pairs_def eq)
qed

lemma all_pairs_Nil: "all_pairs [] = []"
  by (simp add: all_pairs_def)

lemma length_all_pairs: "length (all_pairs cs) = sum_list cs"
  by (induction cs rule: rev_induct) (simp_all add: all_pairs_Nil all_pairs_snoc)

lemma set_all_pairs: "set (all_pairs cs) = {(i, j). i < length cs \<and> j < cs ! i}"
proof (induction cs rule: rev_induct)
  case Nil
  then show ?case by (simp add: all_pairs_Nil)
next
  case (snoc c cs)
  show ?case
    by (auto simp: all_pairs_snoc snoc.IH nth_append less_Suc_eq)
qed

lemma distinct_all_pairs: "distinct (all_pairs cs)"
proof (induction cs rule: rev_induct)
  case Nil
  then show ?case by (simp add: all_pairs_Nil)
next
  case (snoc c cs)
  have "distinct (map (Pair (length cs)) [0..<c])"
    by (simp add: distinct_map inj_on_def)
  moreover have "set (all_pairs cs) \<inter> set (map (Pair (length cs)) [0..<c]) = {}"
    by (auto simp: set_all_pairs)
  ultimately show ?case using snoc.IH by (simp add: all_pairs_snoc)
qed

lemma sum_list_take_Suc:
  "i < length cs \<Longrightarrow> sum_list (take (Suc i) cs) = sum_list (take i cs) + (cs ! i :: nat)"
  by (simp add: take_Suc_conv_app_nth)

lemma sum_list_take_le: "sum_list (take k cs) \<le> (sum_list cs :: nat)"
proof -
  have "sum_list (take k cs) + sum_list (drop k cs) = sum_list cs"
    by (metis append_take_drop_id sum_list_append)
  then show ?thesis by linarith
qed

lemma all_pairs_nth:
  "i < length cs \<Longrightarrow> j < cs ! i \<Longrightarrow> all_pairs cs ! cursor_pos cs i j = (i, j)"
proof (induction cs rule: rev_induct)
  case Nil
  then show ?case by simp
next
  case (snoc c cs)
  show ?case
  proof (cases "i < length cs")
    case True
    then have j: "j < cs ! i" using snoc.prems by (simp add: nth_append)
    have "cursor_pos (cs @ [c]) i j = cursor_pos cs i j"
      using True by (simp add: cursor_pos_def)
    moreover have "cursor_pos cs i j < length (all_pairs cs)"
    proof -
      have "cursor_pos cs i j < sum_list (take (Suc i) cs)"
        using True j by (simp add: cursor_pos_def sum_list_take_Suc)
      also have "\<dots> \<le> sum_list cs" by (rule sum_list_take_le)
      finally show ?thesis by (simp add: length_all_pairs)
    qed
    ultimately show ?thesis
      using snoc.IH [OF True j] by (simp add: all_pairs_snoc nth_append)
  next
    case False
    then have i: "i = length cs" using snoc.prems by simp
    then have j: "j < c" using snoc.prems by simp
    have "cursor_pos (cs @ [c]) i j = length (all_pairs cs) + j"
      using i by (simp add: cursor_pos_def length_all_pairs)
    then show ?thesis using i j by (simp add: all_pairs_snoc nth_append)
  qed
qed

lemma cursor_pos_less:
  assumes "i < length cs" "j < cs ! i"
  shows "cursor_pos cs i j < sum_list cs"
proof -
  have "cursor_pos cs i j < sum_list (take (Suc i) cs)"
    using assms by (simp add: cursor_pos_def sum_list_take_Suc)
  also have "\<dots> \<le> sum_list cs" by (rule sum_list_take_le)
  finally show ?thesis .
qed

subsection \<open>One step of the selector\<close>

text \<open>
  In the enumeration of all endpoints, one call of \<^verbatim>\<open>choose_next_server\<close> moves the cursor to the next place, cyclically.
\<close>

lemma selector_counts:
  assumes "selector_at nc xs i j"
  shows "length (service_counts nc) = nat (num_servers nc)"
    and "k < nat (num_servers nc) \<Longrightarrow> service_counts nc ! k = nat (num_services (xs ! k))"
    and "k < nat (num_servers nc) \<Longrightarrow> 1 \<le> num_services (xs ! k)"
    and "i < length (service_counts nc)" and "j < service_counts nc ! i"
proof -
  show l: "length (service_counts nc) = nat (num_servers nc)"
    using assms by (simp add: selector_at_def service_counts_def)
  show n: "service_counts nc ! k = nat (num_services (xs ! k))" if "k < nat (num_servers nc)" for k
    using assms that by (simp add: selector_at_def service_counts_def)
  show "1 \<le> num_services (xs ! k)" if "k < nat (num_servers nc)"
  proof -
    have "xs ! k \<in> set (take (nat (num_servers nc)) xs)"
      using assms that by (metis (no_types, lifting) in_set_conv_nth length_take min.absorb2 nth_take selector_at_def)
    then show ?thesis using assms by (simp add: selector_at_def list_all_iff)
  qed
  show i: "i < length (service_counts nc)"
    using assms l by (simp add: selector_at_def zless_nat_eq_int_zless)
  show "j < service_counts nc ! i"
    using assms i l n [of i] by (simp add: selector_at_def zless_nat_eq_int_zless)
qed

lemma selector_deref:
  assumes "selector_at nc xs i j"
  shows "get_curr_server nc = Some (int i)" and "deref_server nc (Some (int i)) = Some (xs ! i)"
  using assms
  by (auto simp: selector_at_def get_curr_server_def deref_server_def)

lemma service_counts_frame:
  "servers a = servers b \<Longrightarrow> num_servers a = num_servers b \<Longrightarrow>
   service_counts a = service_counts b"
  by (simp add: service_counts_def split: option.splits)

lemma choose_next_server_step:
  assumes sel: "selector_at nc xs i j"
  shows "\<exists>p nc' i' j'.
           choose_next_server nc = Some (p, nc') \<and> selector_at nc' xs i' j' \<and>
           service_counts nc' = service_counts nc \<and>
           cursor_pos (service_counts nc) i' j' =
             (cursor_pos (service_counts nc) i j + 1) mod sum_list (service_counts nc) \<and>
           (num_servers nc = 1 \<longrightarrow> i' = i)"
proof -
  let ?cs = "service_counts nc"
  note c = selector_counts [OF sel]
  have il: "i < nat (num_servers nc)" using c(1,4) by simp
  have ci: "?cs ! i = nat (num_services (xs ! i))" using c(2) il by simp
  have ch: "choose_next_server nc =
      (if int j < num_services (xs ! i) - 1
       then Some (get_curr_server (nc\<lparr>curr_service := curr_service nc + 1\<rparr>),
                  nc\<lparr>curr_service := curr_service nc + 1\<rparr>)
       else Some (get_curr_server (next_server nc), next_server nc))"
    using sel selector_deref [OF sel]
    by (simp add: choose_next_server_def selector_at_def Let_def)
  show ?thesis
  proof (cases "int j < num_services (xs ! i) - 1")
    case True
    define nc' where "nc' = nc\<lparr>curr_service := curr_service nc + 1\<rparr>"
    have 1: "choose_next_server nc = Some (get_curr_server nc', nc')"
      using ch True by (simp add: nc'_def)
    have 2: "selector_at nc' xs i (Suc j)"
      using sel True by (simp add: selector_at_def nc'_def)
    have 3: "service_counts nc' = ?cs"
      by (rule service_counts_frame) (simp_all add: nc'_def)
    have "Suc j < ?cs ! i" using True ci by simp
    then have "cursor_pos ?cs i (Suc j) < sum_list ?cs"
      using c(4) by (rule cursor_pos_less [rotated])
    then have 4: "cursor_pos ?cs i (Suc j) = (cursor_pos ?cs i j + 1) mod sum_list ?cs"
      by (simp add: cursor_pos_def)
    from 1 2 3 4 show ?thesis by blast
  next
    case False
    then have last: "Suc j = ?cs ! i"
      using c(5) ci by linarith
    have pos: "cursor_pos ?cs i j + 1 = sum_list (take (Suc i) ?cs)"
      using last c(4) by (simp add: cursor_pos_def sum_list_take_Suc)
    show ?thesis
    proof (cases "Suc i < nat (num_servers nc)")
      case True
      define nc' where "nc' = nc\<lparr>curr_service := 0, curr_server := int (Suc i)\<rparr>"
      have "next_server nc = nc'"
        using True sel by (simp add: next_server_def nc'_def selector_at_def Let_def)
      then have 1: "choose_next_server nc = Some (get_curr_server nc', nc')"
        using ch False by simp
      have "1 \<le> num_services (xs ! Suc i)" using c(3) True by simp
      then have 2: "selector_at nc' xs (Suc i) 0"
        using sel True by (simp add: selector_at_def nc'_def)
      have 3: "service_counts nc' = ?cs"
        by (rule service_counts_frame) (simp_all add: nc'_def)
      have "0 < ?cs ! Suc i" using c(2) [of "Suc i"] \<open>1 \<le> num_services (xs ! Suc i)\<close> True by simp
      then have "cursor_pos ?cs (Suc i) 0 < sum_list ?cs"
        using True c(1) by (intro cursor_pos_less) simp_all
      then have 4: "cursor_pos ?cs (Suc i) 0 = (cursor_pos ?cs i j + 1) mod sum_list ?cs"
        using pos by (simp add: cursor_pos_def)
      have 5: "num_servers nc = 1 \<longrightarrow> Suc i = i" using True by simp
      from 1 2 3 4 5 show ?thesis by blast
    next
      case F2: False
      then have iN: "Suc i = nat (num_servers nc)" using il by simp
      define nc' where "nc' = nc\<lparr>curr_service := 0, curr_server := 0\<rparr>"
      have "next_server nc = nc'"
        using iN sel by (auto simp: next_server_def nc'_def selector_at_def Let_def)
      then have 1: "choose_next_server nc = Some (get_curr_server nc', nc')"
        using ch False by simp
      have "1 \<le> num_services (xs ! 0)" using c(3) [of 0] iN by simp
      then have 2: "selector_at nc' xs 0 0"
        using sel by (simp add: selector_at_def nc'_def)
      have 3: "service_counts nc' = ?cs"
        by (rule service_counts_frame) (simp_all add: nc'_def)
      have "cursor_pos ?cs i j + 1 = sum_list ?cs"
        using pos iN c(1) by simp
      then have 4: "cursor_pos ?cs 0 0 = (cursor_pos ?cs i j + 1) mod sum_list ?cs"
        by (simp add: cursor_pos_def)
      have 5: "num_servers nc = 1 \<longrightarrow> 0 = i" using iN by auto
      from 1 2 3 4 5 show ?thesis by blast
    qed
  qed
qed

lemma visits_nth:
  assumes "selector_at nc xs i j"
  shows "visits k nc =
           Some (map (\<lambda>m. int_pair (all_pairs (service_counts nc) !
                      ((cursor_pos (service_counts nc) i j + 1 + m) mod
                       sum_list (service_counts nc))))
                  [0..<k])"
  using assms
proof (induction k arbitrary: nc i j)
  case 0
  then show ?case by simp
next
  case (Suc k)
  let ?cs = "service_counts nc"
  let ?T = "sum_list ?cs"
  let ?p = "cursor_pos ?cs i j"
  from choose_next_server_step [OF Suc.prems] obtain p nc' i' j' where
    ch: "choose_next_server nc = Some (p, nc')" and
    sel': "selector_at nc' xs i' j'" and
    cs': "service_counts nc' = ?cs" and
    pos': "cursor_pos ?cs i' j' = (?p + 1) mod ?T"
    by blast
  note c' = selector_counts [OF sel']
  have "all_pairs ?cs ! cursor_pos ?cs i' j' = (i', j')"
    using c'(4,5) cs' by (simp add: all_pairs_nth)
  moreover have "cursor nc' = int_pair (i', j')"
    using sel' by (simp add: cursor_def int_pair_def selector_at_def)
  ultimately have hd: "cursor nc' = int_pair (all_pairs ?cs ! ((?p + 1 + 0) mod ?T))"
    using pos' by simp
  have "((?p + 1) mod ?T + 1 + m) mod ?T = (?p + 1 + Suc m) mod ?T" for m
    by (metis add.assoc mod_add_left_eq plus_1_eq_Suc)
  then have tl: "visits k nc' =
      Some (map (\<lambda>m. int_pair (all_pairs ?cs ! ((?p + 1 + Suc m) mod ?T))) [0..<k])"
    using Suc.IH [OF sel'] cs' pos' by simp
  show ?case
    using ch hd tl by (simp add: map_upt_Suc del: upt_Suc)
qed

lemma rotate_as_map:
  "map (\<lambda>m. xs ! ((n + m) mod length xs)) [0..<length xs] = rotate n xs"
  by (rule nth_equalityI) (simp_all add: nth_rotate)

subsection \<open>Fields after closing\<close>

lemma set_closed_fields:
  "state (set_closed nc) = network_client_closed"
  "tls (set_closed nc) = tls nc"
  "getaddrinfo_reqs (set_closed nc) = getaddrinfo_reqs nc"
  "connect_reqs (set_closed nc) = connect_reqs nc"
  "poll_watchers (set_closed nc) = poll_watchers nc"
  "conn_closing (set_closed nc) = conn_closing nc"
  "servers (set_closed nc) = servers nc"
  "num_servers (set_closed nc) = num_servers nc"
  "curr_server (set_closed nc) = curr_server nc"
  "curr_service (set_closed nc) = curr_service nc"
  "tls_live (set_closed nc) = (case tls nc of None \<Rightarrow> tls_live nc | Some h \<Rightarrow> tls_live nc - {h})"
  "conn_data (set_closed nc) = conn_data nc"
  by (simp_all add: set_closed_def call_close_cb_def emit_def Let_def split: option.splits)

lemma set_closed_poll_starts:
  "filter is_poll_start (trace (set_closed nc)) = filter is_poll_start (trace nc)"
  by (simp add: set_closed_def call_close_cb_def emit_def Let_def split: option.splits)

lemma set_closed_tls_state:
  "tls_state (set_closed nc) = (if tls nc = None then tls_state nc else 0)"
  by (cases "tls nc")
    (simp_all add: set_closed_def call_close_cb_def emit_def Let_def split: option.splits)

subsection \<open>Outcomes of the completion callbacks\<close>

lemma resolving_cb_cases:
  assumes "resolving_cb nc status ai rc = Some nc'"
  shows "nc' = set_closed nc \<or>
         (\<exists>s. deref_server nc (get_curr_server nc) = Some s \<and>
            (proto s = network_client_proto_udp \<and>
               nc' = (call_connect_cb (emit Uv_udp_init (nc\<lparr>addrinfo := ai\<rparr>)))
                       \<lparr>state := network_client_connected\<rparr> \<or>
             proto s \<noteq> network_client_proto_udp \<and>
               (rc = 0 \<and>
                  nc' = (emit (Uv_tcp_connect rc)
                           ((emit Uv_tcp_init (nc\<lparr>addrinfo := ai\<rparr>))\<lparr>conn_data := True\<rparr>))
                          \<lparr>connect_reqs := connect_reqs nc + 1,
                           state := network_client_connecting\<rparr> \<or>
                rc \<noteq> 0 \<and>
                  nc' = set_closed (emit (Uv_tcp_connect rc)
                                     ((emit Uv_tcp_init (nc\<lparr>addrinfo := ai\<rparr>))
                                        \<lparr>conn_data := True\<rparr>)))))"
proof (cases "status < 0")
  case True
  then show ?thesis using assms by (simp add: resolving_cb_def Let_def split: if_splits)
next
  case False
  have fr: "deref_server (nc\<lparr>addrinfo := ai\<rparr>) (get_curr_server nc) =
            deref_server nc (get_curr_server nc)"
    by (rule deref_server_frame) simp
  from False assms obtain s where s: "deref_server nc (get_curr_server nc) = Some s"
    by (auto simp: resolving_cb_def Let_def fr split: option.splits)
  show ?thesis
  proof (cases "proto s = network_client_proto_udp")
    case True
    then show ?thesis
      using assms False s fr by (simp add: resolving_cb_def Let_def connect_udp_def)
  next
    case F: False
    then show ?thesis
      using assms False s fr
      by (cases "proto s"; cases ai; cases "rc = 0")
        (simp_all add: resolving_cb_def Let_def connect_tcp_def emit_def)
  qed
qed

lemma connect_tcp_cb_cases:
  assumes "connect_tcp_cb nc status tls_new fileno_ok hs = Some nc'"
  shows "nc' = set_closed nc \<or>
         (\<exists>s. deref_server nc (get_curr_server nc) = Some s \<and>
            (proto s = network_client_proto_tcp \<and>
               nc' = call_connect_cb (nc\<lparr>state := network_client_connected\<rparr>) \<or>
             proto s \<noteq> network_client_proto_tcp \<and>
               (tls_new = None \<and>
                  nc' = set_closed ((emit (Tls_client None) nc)\<lparr>tls := None\<rparr>) \<or>
                (\<exists>h. tls_new = Some h \<and>
                   (fileno_ok \<and>
                      nc' = nc\<lparr>trace := trace nc @
                                  [Tls_client (Some h), Tls_connect_socket (Some h) hs,
                                   Uv_poll_start],
                                tls := Some h, tls_live := insert h (tls_live nc),
                                tls_state := hs, poll_watchers := poll_watchers nc + 1\<rparr> \<or>
                    \<not> fileno_ok \<and>
                      nc' = nc\<lparr>trace := trace nc @ [Tls_client (Some h)],
                                tls := Some h, tls_live := insert h (tls_live nc)\<rparr>)))))"
proof (cases "status \<noteq> 0")
  case True
  then show ?thesis using assms by (simp add: connect_tcp_cb_def Let_def split: if_splits)
next
  case False
  from False assms obtain s where s: "deref_server nc (get_curr_server nc) = Some s"
    by (auto simp: connect_tcp_cb_def Let_def split: option.splits)
  show ?thesis
  proof (cases "proto s = network_client_proto_tcp")
    case True
    then show ?thesis using assms False s by (simp add: connect_tcp_cb_def Let_def)
  next
    case F: False
    then show ?thesis
      using assms False s
      by (cases tls_new; cases fileno_ok)
        (auto simp: connect_tcp_cb_def Let_def emit_def split: if_splits)
  qed
qed

lemma call_connect_cb_fields:
  "state (call_connect_cb nc) = state nc"
  "tls (call_connect_cb nc) = tls nc"
  "tls_state (call_connect_cb nc) = tls_state nc"
  "getaddrinfo_reqs (call_connect_cb nc) = getaddrinfo_reqs nc"
  "connect_reqs (call_connect_cb nc) = connect_reqs nc"
  "poll_watchers (call_connect_cb nc) = poll_watchers nc"
  "conn_closing (call_connect_cb nc) = conn_closing nc"
  "servers (call_connect_cb nc) = servers nc"
  "num_servers (call_connect_cb nc) = num_servers nc"
  "curr_server (call_connect_cb nc) = curr_server nc"
  "curr_service (call_connect_cb nc) = curr_service nc"
  "tls_live (call_connect_cb nc) = tls_live nc"
  "conn_data (call_connect_cb nc) = conn_data nc"
  "filter is_poll_start (trace (call_connect_cb nc)) = filter is_poll_start (trace nc)"
  by (simp_all add: call_connect_cb_def emit_def split: option.splits)

subsection \<open>Registry operations\<close>

text \<open>
  They change the server array and its count only.
\<close>

lemma add_server_changes:
  assumes "network_client_add_server al fresh nc u = Some (r, nc')"
  shows "\<exists>a b. nc' = nc\<lparr>servers := a, num_servers := b\<rparr>"
proof (cases "fst (take_alloc al)")
  case False
  then have "nc' = nc\<lparr>servers := None\<rparr>"
    using assms by (simp add: network_client_add_server_def split: prod.splits)
  then have "nc' = nc\<lparr>servers := None, num_servers := num_servers nc\<rparr>" by simp
  then show ?thesis by blast
next
  case True
  define arr where "arr = realloc_servers (servers nc) (nat (num_servers nc + 1)) fresh"
  from True assms obtain rc srv al2 where
    p: "parse_server (snd (take_alloc al)) (arr ! nat (num_servers nc)) u = Some (rc, srv, al2)"
    and n: "nc' = (if rc \<noteq> 0 then nc\<lparr>servers := Some (arr[nat (num_servers nc) := srv])\<rparr>
                  else nc\<lparr>servers := Some (arr[nat (num_servers nc) := srv]),
                          num_servers := num_servers nc + 1\<rparr>)"
    by (auto simp: network_client_add_server_def Let_def arr_def
        split: prod.splits option.splits if_splits)
  show ?thesis
  proof (cases "rc \<noteq> 0")
    case True
    with n have "nc' = nc\<lparr>servers := Some (arr[nat (num_servers nc) := srv]),
                          num_servers := num_servers nc\<rparr>" by simp
    then show ?thesis by blast
  next
    case False
    with n show ?thesis by auto
  qed
qed

lemma remove_servers_changes:
  assumes "network_client_remove_servers nc = Some (r, nc')"
  shows "\<exists>a b. nc' = nc\<lparr>servers := a, num_servers := b\<rparr>"
proof (cases "servers nc")
  case None
  then have "nc' = nc\<lparr>servers := servers nc, num_servers := num_servers nc\<rparr>"
    using assms by (simp add: network_client_remove_servers_def)
  then show ?thesis by blast
next
  case (Some xs)
  then have "nc' = nc\<lparr>servers := None, num_servers := 0\<rparr>"
    using assms by (simp add: network_client_remove_servers_def split: if_splits)
  then show ?thesis by blast
qed

subsection \<open>The invariant of the requests in flight\<close>

lemma loop_inv_new: "loop_inv network_client_new"
  by (simp add: loop_inv_def network_client_new_def)

lemma loop_inv_registry:
  "loop_inv (nc\<lparr>servers := a, num_servers := b\<rparr>) = loop_inv nc"
  by (simp add: loop_inv_def)

lemma loop_inv_cbs:
  "loop_inv (network_client_set_connect_cb nc cb arg) = loop_inv nc"
  "loop_inv (network_client_set_close_cb nc cb arg) = loop_inv nc"
  by (simp_all add: loop_inv_def network_client_set_connect_cb_def network_client_set_close_cb_def)

lemma loop_inv_close:
  assumes "loop_inv nc" "network_client_close nc = Some (r, nc')"
  shows "loop_inv nc'"
proof (cases "state nc = network_client_connected")
  case True
  then have "nc' = (emit Uv_close nc)\<lparr>conn_closing := True\<rparr>"
    using assms(2) by (simp add: network_client_close_def split: if_splits)
  then show ?thesis using assms(1) True by (simp add: loop_inv_def emit_def)
next
  case False
  then show ?thesis using assms by (simp add: network_client_close_def)
qed

lemma loop_inv_set_closed:
  assumes "loop_inv nc" "connect_reqs nc = 0" "getaddrinfo_reqs nc = 0" "\<not> conn_closing nc"
  shows "loop_inv (set_closed nc)"
  using assms
  by (auto simp: loop_inv_def set_closed_fields set_closed_tls_state set_closed_poll_starts)

lemma loop_inv_on_poll:
  assumes "loop_inv nc"
  shows "loop_inv (on_poll nc hs)"
proof (cases "state nc = network_client_connecting \<and>
              (tls_state nc = TLS_READ_AGAIN \<or> tls_state nc = TLS_WRITE_AGAIN)")
  case True
  then have t: "tls_state nc \<noteq> 0"
    by (auto simp: TLS_READ_AGAIN_def TLS_WRITE_AGAIN_def)
  have "on_poll nc hs =
          (if hs = 0
           then nc\<lparr>trace := trace nc @ [Tls_connect_socket (tls nc) hs], tls_state := hs,
                    state := network_client_connected\<rparr>
           else nc\<lparr>trace := trace nc @ [Tls_connect_socket (tls nc) hs], tls_state := hs\<rparr>)"
    using True by (simp add: on_poll_def emit_def Let_def)
  then show ?thesis using assms True t by (simp add: loop_inv_def)
next
  case False
  then have "on_poll nc hs = nc" by (auto simp: on_poll_def)
  then show ?thesis using assms by simp
qed

lemma loop_inv_reconnect_cb:
  assumes "loop_inv nc" "reconnect_cb nc rc = Some nc'"
  shows "loop_inv nc'"
proof (cases "state nc \<noteq> network_client_closed \<or> num_servers nc = 0")
  case True
  then show ?thesis using assms by (simp add: reconnect_cb_def)
next
  case False
  then have c: "state nc = network_client_closed" "num_servers nc \<noteq> 0" by auto
  from reconnect_cb_attempt [OF assms(2) c] obtain i j h v st where
    "nc' = nc\<lparr>curr_server := i, curr_service := j, state := network_client_resolving,
                     trace := trace nc @ [Uv_getaddrinfo h v st],
                     getaddrinfo_reqs := getaddrinfo_reqs nc + (if rc = 0 then 1 else 0)\<rparr>"
    by blast
  then show ?thesis using assms(1) c by (auto simp: loop_inv_def)
qed

lemma loop_inv_resolving_cb:
  assumes inv: "loop_inv nc" and pending: "getaddrinfo_reqs nc \<noteq> 0"
    and cb: "resolving_cb (nc\<lparr>getaddrinfo_reqs := getaddrinfo_reqs nc - 1\<rparr>) status ai rc = Some nc'"
  shows "loop_inv nc'"
proof -
  define nc0 where "nc0 = nc\<lparr>getaddrinfo_reqs := getaddrinfo_reqs nc - 1\<rparr>"
  have st: "state nc = network_client_resolving" and one: "getaddrinfo_reqs nc = 1"
    using inv pending by (auto simp: loop_inv_def)
  have inv0: "loop_inv nc0" and z: "getaddrinfo_reqs nc0 = 0" "connect_reqs nc0 = 0"
    "\<not> conn_closing nc0" "state nc0 = network_client_resolving" "tls_state nc0 = 0"
    using inv st one by (auto simp: loop_inv_def nc0_def)
  from resolving_cb_cases [OF cb [folded nc0_def]] show ?thesis
  proof (elim disjE exE conjE)
    assume "nc' = set_closed nc0"
    then show ?thesis using loop_inv_set_closed [OF inv0 z(2,1,3)] by simp
  next
    fix s assume "nc' = (call_connect_cb (emit Uv_udp_init (nc0\<lparr>addrinfo := ai\<rparr>)))
                       \<lparr>state := network_client_connected\<rparr>"
    then show ?thesis
      using inv0 z by (simp add: loop_inv_def call_connect_cb_fields emit_def)
  next
    fix s assume "nc' = (emit (Uv_tcp_connect rc)
                           ((emit Uv_tcp_init (nc0\<lparr>addrinfo := ai\<rparr>))\<lparr>conn_data := True\<rparr>))
                          \<lparr>connect_reqs := connect_reqs nc0 + 1,
                           state := network_client_connecting\<rparr>"
    then show ?thesis
      using inv0 z by (simp add: loop_inv_def emit_def)
  next
    fix s assume n: "nc' = set_closed (emit (Uv_tcp_connect rc)
                                     ((emit Uv_tcp_init (nc0\<lparr>addrinfo := ai\<rparr>))
                                        \<lparr>conn_data := True\<rparr>))"
    have "loop_inv (emit (Uv_tcp_connect rc)
                      ((emit Uv_tcp_init (nc0\<lparr>addrinfo := ai\<rparr>))\<lparr>conn_data := True\<rparr>))"
      using inv0 by (simp add: loop_inv_def emit_def)
    then show ?thesis
      unfolding n using z by (intro loop_inv_set_closed) (simp_all add: emit_def)
  qed
qed

lemma loop_inv_connect_tcp_cb:
  assumes inv: "loop_inv nc" and pending: "connect_reqs nc \<noteq> 0"
    and cb: "connect_tcp_cb (nc\<lparr>connect_reqs := connect_reqs nc - 1\<rparr>) status tls_new fileno_ok hs
               = Some nc'"
  shows "loop_inv nc'"
proof -
  define nc0 where "nc0 = nc\<lparr>connect_reqs := connect_reqs nc - 1\<rparr>"
  have st: "state nc = network_client_connecting" "tls_state nc = 0" and one: "connect_reqs nc = 1"
    and g: "getaddrinfo_reqs nc = 0"
    using inv pending by (auto simp: loop_inv_def)
  have inv0: "loop_inv nc0" and z: "getaddrinfo_reqs nc0 = 0" "connect_reqs nc0 = 0"
    "\<not> conn_closing nc0" "state nc0 = network_client_connecting" "tls_state nc0 = 0"
    using inv st one g by (auto simp: loop_inv_def nc0_def)
  from connect_tcp_cb_cases [OF cb [folded nc0_def]] show ?thesis
  proof (elim disjE exE conjE)
    assume "nc' = set_closed nc0"
    then show ?thesis using loop_inv_set_closed [OF inv0 z(2,1,3)] by simp
  next
    fix s assume "nc' = call_connect_cb (nc0\<lparr>state := network_client_connected\<rparr>)"
    then show ?thesis
      using inv0 z by (simp add: loop_inv_def call_connect_cb_fields)
  next
    fix s assume n: "nc' = set_closed ((emit (Tls_client None) nc0)\<lparr>tls := None\<rparr>)"
    have "loop_inv ((emit (Tls_client None) nc0)\<lparr>tls := None\<rparr>)"
      using inv0 z by (simp add: loop_inv_def emit_def)
    then show ?thesis
      unfolding n using z by (intro loop_inv_set_closed) (simp_all add: emit_def)
  next
    fix s h assume "nc' = nc0\<lparr>trace := trace nc0 @
                                  [Tls_client (Some h), Tls_connect_socket (Some h) hs,
                                   Uv_poll_start],
                                tls := Some h, tls_live := insert h (tls_live nc0),
                                tls_state := hs, poll_watchers := poll_watchers nc0 + 1\<rparr>"
    then show ?thesis
      using inv0 z by (simp add: loop_inv_def)
  next
    fix s h assume "nc' = nc0\<lparr>trace := trace nc0 @ [Tls_client (Some h)],
                                tls := Some h, tls_live := insert h (tls_live nc0)\<rparr>"
    then show ?thesis
      using inv0 z by (simp add: loop_inv_def)
  qed
qed

lemma loop_inv_on_close:
  assumes "loop_inv nc" "conn_closing nc" "on_close (nc\<lparr>conn_closing := False\<rparr>) = Some nc'"
  shows "loop_inv nc'"
proof -
  have "state nc = network_client_connected" using assms by (simp add: loop_inv_def)
  then have "loop_inv (nc\<lparr>conn_closing := False\<rparr>)"
    and "connect_reqs (nc\<lparr>conn_closing := False\<rparr>) = 0"
    and "getaddrinfo_reqs (nc\<lparr>conn_closing := False\<rparr>) = 0"
    using assms(1) by (auto simp: loop_inv_def)
  then have "loop_inv (set_closed (nc\<lparr>conn_closing := False\<rparr>))"
    by (intro loop_inv_set_closed) simp_all
  then show ?thesis using assms(3) by (simp add: on_close_def split: if_splits)
qed

lemma loop_inv_fire:
  assumes "loop_inv nc" "fire ev nc = Some nc'"
  shows "loop_inv nc'"
proof (cases ev)
  case (Add_server u al fresh)
  then obtain r where "network_client_add_server al fresh nc u = Some (r, nc')"
    using assms(2) by (auto simp: fire_def)
  from add_server_changes [OF this] show ?thesis
    using assms(1) by (auto simp: loop_inv_registry)
next
  case Remove_servers
  then obtain r where "network_client_remove_servers nc = Some (r, nc')"
    using assms(2) by (auto simp: fire_def)
  from remove_servers_changes [OF this] show ?thesis
    using assms(1) by (auto simp: loop_inv_registry)
next
  case (Set_connect_cb cb arg)
  then show ?thesis using assms by (auto simp: fire_def loop_inv_cbs)
next
  case (Set_close_cb cb arg)
  then show ?thesis using assms by (auto simp: fire_def loop_inv_cbs)
next
  case Close_request
  then obtain r where "network_client_close nc = Some (r, nc')"
    using assms(2) by (auto simp: fire_def)
  then show ?thesis using assms(1) by (rule loop_inv_close [rotated])
next
  case (Timer_fires rc)
  then show ?thesis using assms loop_inv_reconnect_cb by (simp add: fire_def)
next
  case (Getaddrinfo_done status ai rc)
  then show ?thesis
    using assms loop_inv_resolving_cb [of nc status ai rc nc']
    by (simp add: fire_def split: if_splits)
next
  case (Connect_done status tls_new fileno_ok hs)
  then show ?thesis
    using assms loop_inv_connect_tcp_cb [of nc status tls_new fileno_ok hs nc']
    by (simp add: fire_def split: if_splits)
next
  case (Poll_ready hs)
  then show ?thesis
    using assms loop_inv_on_poll [of nc hs] by (auto simp: fire_def split: if_splits)
next
  case Close_done
  then show ?thesis
    using assms loop_inv_on_close [of nc nc'] by (auto simp: fire_def split: if_splits)
qed

lemma loop_inv_run:
  "loop_inv nc \<Longrightarrow> run evs nc = Some nc' \<Longrightarrow> loop_inv nc'"
proof (induction evs arbitrary: nc)
  case Nil
  then show ?case by simp
next
  case (Cons ev evs)
  then show ?case
    by (auto split: option.splits dest: loop_inv_fire)
qed

lemma loop_inv_requests:
  assumes "loop_inv nc"
  shows "getaddrinfo_reqs nc + connect_reqs nc \<le> 1"
    and "0 < getaddrinfo_reqs nc + connect_reqs nc \<Longrightarrow> on_poll nc hs = nc"
    and "poll_watchers nc = length (filter is_poll_start (trace nc))"
proof -
  show "getaddrinfo_reqs nc + connect_reqs nc \<le> 1"
    using assms by (cases "getaddrinfo_reqs nc = 1") (auto simp: loop_inv_def)
  show "poll_watchers nc = length (filter is_poll_start (trace nc))"
    using assms by (simp add: loop_inv_def)
  assume "0 < getaddrinfo_reqs nc + connect_reqs nc"
  then have "getaddrinfo_reqs nc = 1 \<or> connect_reqs nc = 1"
    using assms by (auto simp: loop_inv_def)
  then have "state nc \<noteq> network_client_connecting \<or> tls_state nc = 0"
    using assms by (auto simp: loop_inv_def)
  then show "on_poll nc hs = nc"
    by (auto simp: on_poll_def TLS_READ_AGAIN_def TLS_WRITE_AGAIN_def)
qed

subsection \<open>The invariant of the TLS session\<close>

lemma curr_proto_frame:
  "servers a = servers b \<Longrightarrow> curr_server a = curr_server b \<Longrightarrow> curr_proto a = curr_proto b"
  by (simp add: curr_proto_def deref_server_frame [of a b] get_curr_server_frame [of a b])

lemma holds_tls_session_frame:
  "tls a = tls b \<Longrightarrow> tls_live a = tls_live b \<Longrightarrow> holds_tls_session a = holds_tls_session b"
  by (simp add: holds_tls_session_def split: option.splits)

lemma session_inv_frame:
  assumes "tls a = tls b" "tls_live a = tls_live b" "state a = state b"
    "connect_reqs a = connect_reqs b"
  shows "session_inv a = session_inv b"
  using assms holds_tls_session_frame [of a b] by (simp add: session_inv_def)

lemma session_inv_new: "session_inv network_client_new"
  by (simp add: session_inv_def network_client_new_def holds_tls_session_def)

lemma session_inv_no_session:
  assumes "session_inv nc" "\<not> holds_tls_session nc"
  shows "tls_live nc = {}"
  using assms by (cases "tls nc") (auto simp: session_inv_def holds_tls_session_def)

lemma session_inv_set_closed:
  assumes "tls_live nc \<subseteq> set_option (tls nc)"
  shows "session_inv (set_closed nc)"
proof -
  have l: "tls_live (set_closed nc) = {}"
    using assms by (cases "tls nc") (auto simp: set_closed_fields)
  then have "\<not> holds_tls_session (set_closed nc)"
    by (simp add: holds_tls_session_def split: option.splits)
  then show ?thesis using l by (simp add: session_inv_def)
qed

lemma session_inv_fire:
  assumes inv: "session_inv nc" and li: "loop_inv nc" and f: "fire ev nc = Some nc'"
  shows "session_inv nc'"
proof (cases ev)
  case (Add_server u al fresh)
  then obtain r where "network_client_add_server al fresh nc u = Some (r, nc')"
    using f by (auto simp: fire_def)
  from add_server_changes [OF this] obtain a b where
    "nc' = nc\<lparr>servers := a, num_servers := b\<rparr>" by blast
  then show ?thesis using inv session_inv_frame [of nc' nc] by simp
next
  case Remove_servers
  then obtain r where "network_client_remove_servers nc = Some (r, nc')"
    using f by (auto simp: fire_def)
  from remove_servers_changes [OF this] obtain a b where
    "nc' = nc\<lparr>servers := a, num_servers := b\<rparr>" by blast
  then show ?thesis using inv session_inv_frame [of nc' nc] by simp
next
  case (Set_connect_cb cb arg)
  then have "nc' = nc\<lparr>connect_cb := cb, connect_cb_arg := arg\<rparr>"
    using f by (auto simp: fire_def network_client_set_connect_cb_def)
  then show ?thesis using inv session_inv_frame [of nc' nc] by simp
next
  case (Set_close_cb cb arg)
  then have "nc' = nc\<lparr>close_cb := cb, close_cb_arg := arg\<rparr>"
    using f by (auto simp: fire_def network_client_set_close_cb_def)
  then show ?thesis using inv session_inv_frame [of nc' nc] by simp
next
  case Close_request
  then have "nc' = nc \<or> nc' = (emit Uv_close nc)\<lparr>conn_closing := True\<rparr>"
    using f by (auto simp: fire_def network_client_close_def split: if_splits)
  then show ?thesis using inv session_inv_frame [of nc' nc] by (auto simp: emit_def)
next
  case (Timer_fires rc)
  then have cb: "reconnect_cb nc rc = Some nc'" using f by (simp add: fire_def)
  show ?thesis
  proof (cases "state nc \<noteq> network_client_closed \<or> num_servers nc = 0")
    case True
    then show ?thesis using inv cb by (simp add: reconnect_cb_def)
  next
    case False
    then have c: "state nc = network_client_closed" "num_servers nc \<noteq> 0" by auto
    have nh: "\<not> holds_tls_session nc" using inv c by (auto simp: session_inv_def)
    from reconnect_cb_attempt [OF cb c] obtain i j h v st where
      n': "nc' = nc\<lparr>curr_server := i, curr_service := j, state := network_client_resolving,
                     trace := trace nc @ [Uv_getaddrinfo h v st],
                     getaddrinfo_reqs := getaddrinfo_reqs nc + (if rc = 0 then 1 else 0)\<rparr>"
      by blast
    have "holds_tls_session nc' = holds_tls_session nc"
      by (rule holds_tls_session_frame) (simp_all add: n')
    then show ?thesis using inv nh by (simp add: session_inv_def n')
  qed
next
  case (Getaddrinfo_done status ai rc)
  define nc0 where "nc0 = nc\<lparr>getaddrinfo_reqs := getaddrinfo_reqs nc - 1\<rparr>"
  from Getaddrinfo_done f have pending: "getaddrinfo_reqs nc \<noteq> 0"
    and cb: "resolving_cb nc0 status ai rc = Some nc'"
    by (auto simp: fire_def nc0_def split: if_splits)
  have st: "state nc = network_client_resolving"
    using li pending by (auto simp: loop_inv_def)
  have inv0: "session_inv nc0"
    using inv session_inv_frame [of nc0 nc] by (simp add: nc0_def)
  have nh: "\<not> holds_tls_session nc0"
    using inv0 st by (auto simp: session_inv_def nc0_def)
  have sub: "tls_live nc0 \<subseteq> set_option (tls nc0)"
    using inv0 by (simp add: session_inv_def)
  from resolving_cb_cases [OF cb] show ?thesis
  proof (elim disjE exE conjE)
    assume "nc' = set_closed nc0"
    then show ?thesis using session_inv_set_closed [OF sub] by simp
  next
    assume n': "nc' = (call_connect_cb (emit Uv_udp_init (nc0\<lparr>addrinfo := ai\<rparr>)))
                       \<lparr>state := network_client_connected\<rparr>"
    have "holds_tls_session nc' = holds_tls_session nc0"
      by (rule holds_tls_session_frame) (simp_all add: n' call_connect_cb_fields emit_def)
    then show ?thesis
      using sub nh by (simp add: session_inv_def n' call_connect_cb_fields emit_def)
  next
    assume n': "nc' = (emit (Uv_tcp_connect rc)
                        ((emit Uv_tcp_init (nc0\<lparr>addrinfo := ai\<rparr>))\<lparr>conn_data := True\<rparr>))
                          \<lparr>connect_reqs := connect_reqs nc0 + 1,
                           state := network_client_connecting\<rparr>"
    have "holds_tls_session nc' = holds_tls_session nc0"
      by (rule holds_tls_session_frame) (simp_all add: n' emit_def)
    then show ?thesis
      using sub nh by (simp add: session_inv_def n' emit_def)
  next
    assume n': "nc' = set_closed (emit (Uv_tcp_connect rc)
                                     ((emit Uv_tcp_init (nc0\<lparr>addrinfo := ai\<rparr>))
                                        \<lparr>conn_data := True\<rparr>))"
    show ?thesis
      unfolding n' using sub by (intro session_inv_set_closed) (simp add: emit_def)
  qed
next
  case (Connect_done status tls_new fileno_ok hs)
  define nc0 where "nc0 = nc\<lparr>connect_reqs := connect_reqs nc - 1\<rparr>"
  from Connect_done f have pending: "connect_reqs nc \<noteq> 0"
    and cb: "connect_tcp_cb nc0 status tls_new fileno_ok hs = Some nc'"
    by (auto simp: fire_def nc0_def split: if_splits)
  have st: "state nc = network_client_connecting" and one: "connect_reqs nc = 1"
    using li pending by (auto simp: loop_inv_def)
  have nhn: "\<not> holds_tls_session nc" using inv pending by (auto simp: session_inv_def)
  have live: "tls_live nc0 = {}"
    using session_inv_no_session [OF inv nhn] by (simp add: nc0_def)
  have cr: "connect_reqs nc0 = 0" and st0: "state nc0 = network_client_connecting"
    using one st by (simp_all add: nc0_def)
  from connect_tcp_cb_cases [OF cb] show ?thesis
  proof (elim disjE exE conjE)
    assume "nc' = set_closed nc0"
    then show ?thesis using session_inv_set_closed [of nc0] live by simp
  next
    assume n': "nc' = call_connect_cb (nc0\<lparr>state := network_client_connected\<rparr>)"
    show ?thesis
      using live cr
      by (simp add: session_inv_def holds_tls_session_def n' call_connect_cb_fields)
  next
    assume n': "nc' = set_closed ((emit (Tls_client None) nc0)\<lparr>tls := None\<rparr>)"
    show ?thesis
      unfolding n' using live by (intro session_inv_set_closed) (simp add: emit_def)
  next
    fix h
    assume n': "nc' = nc0\<lparr>trace := trace nc0 @
                                  [Tls_client (Some h), Tls_connect_socket (Some h) hs,
                                   Uv_poll_start],
                                tls := Some h, tls_live := insert h (tls_live nc0),
                                tls_state := hs, poll_watchers := poll_watchers nc0 + 1\<rparr>"
    show ?thesis
      using live cr st0 by (simp add: session_inv_def holds_tls_session_def n')
  next
    fix h
    assume n': "nc' = nc0\<lparr>trace := trace nc0 @ [Tls_client (Some h)],
                                tls := Some h, tls_live := insert h (tls_live nc0)\<rparr>"
    show ?thesis
      using live cr st0 by (simp add: session_inv_def holds_tls_session_def n')
  qed
next
  case (Poll_ready hs)
  then have n': "nc' = on_poll nc hs" using f by (auto simp: fire_def split: if_splits)
  have "state nc' = state nc \<or>
        state nc = network_client_connecting \<and> state nc' = network_client_connected"
    and "tls nc' = tls nc" "tls_live nc' = tls_live nc" "connect_reqs nc' = connect_reqs nc"
    by (simp_all add: n' on_poll_def emit_def Let_def)
  then show ?thesis
    using inv holds_tls_session_frame [of nc' nc] by (auto simp: session_inv_def)
next
  case Close_done
  then have "nc' = set_closed (nc\<lparr>conn_closing := False\<rparr>)"
    using f by (auto simp: fire_def on_close_def split: if_splits)
  moreover have "tls_live (nc\<lparr>conn_closing := False\<rparr>) \<subseteq>
                 set_option (tls (nc\<lparr>conn_closing := False\<rparr>))"
    using inv by (simp add: session_inv_def)
  ultimately show ?thesis using session_inv_set_closed by simp
qed

lemma session_inv_run:
  "session_inv nc \<Longrightarrow> loop_inv nc \<Longrightarrow> run evs nc = Some nc' \<Longrightarrow> session_inv nc'"
proof (induction evs arbitrary: nc)
  case Nil
  then show ?case by simp
next
  case (Cons ev evs)
  from Cons.prems(3) obtain nc1 where
    f: "fire ev nc = Some nc1" and r: "run evs nc1 = Some nc'"
    by (auto split: option.splits)
  have "session_inv nc1" using session_inv_fire [OF Cons.prems(1,2) f] .
  moreover have "loop_inv nc1" using loop_inv_fire [OF Cons.prems(2) f] .
  ultimately show ?case using Cons.IH [OF _ _ r] by simp
qed

lemma tls_inv_frame:
  assumes "tls a = tls b" "tls_live a = tls_live b" "state a = state b"
    "connect_reqs a = connect_reqs b" "servers a = servers b" "num_servers a = num_servers b"
    "curr_server a = curr_server b"
  shows "tls_inv a = tls_inv b"
  using assms curr_proto_frame [of a b] holds_tls_session_frame [of a b]
  by (simp add: tls_inv_def split: option.splits)

lemma tls_inv_new: "tls_inv network_client_new"
  by (simp add: tls_inv_def network_client_new_def holds_tls_session_def)

lemma tls_inv_no_session:
  assumes "tls_inv nc" "\<not> holds_tls_session nc"
  shows "tls_live nc = {}"
  using assms by (cases "tls nc") (auto simp: tls_inv_def holds_tls_session_def)

lemma tls_inv_set_closed_gen:
  assumes "tls_live nc \<subseteq> set_option (tls nc) \<and>
          0 \<le> curr_server nc \<and> 0 \<le> num_servers nc \<and>
          (num_servers nc = 0 \<longrightarrow> curr_server nc = 0) \<and>
          (0 < num_servers nc \<longrightarrow> curr_server nc < num_servers nc) \<and>
          (servers nc = None \<longrightarrow> num_servers nc = 0) \<and>
          (\<forall>xs. servers nc = Some xs \<longrightarrow> num_servers nc \<le> int (length xs))"
    and "connect_reqs nc = 0"
  shows "tls_inv (set_closed nc)"
proof -
  have l: "tls_live (set_closed nc) = {}"
    using assms(1) by (cases "tls nc") (auto simp: set_closed_fields)
  then have "\<not> holds_tls_session (set_closed nc)"
    by (simp add: holds_tls_session_def split: option.splits)
  then show ?thesis
    using assms l by (simp add: tls_inv_def set_closed_fields)
qed

lemma tls_inv_set_closed:
  assumes "tls_inv nc" "connect_reqs nc = 0"
  shows "tls_inv (set_closed nc)"
  using assms by (intro tls_inv_set_closed_gen) (simp_all add: tls_inv_def)

lemma next_server_index:
  assumes "0 \<le> curr_server nc" "curr_server nc < num_servers nc"
  shows "0 \<le> curr_server (next_server nc) \<and> curr_server (next_server nc) < num_servers nc"
  using assms by (simp add: next_server_def Let_def)

lemma choose_next_server_index:
  assumes "choose_next_server nc = Some (p, nc')"
    and "0 \<le> curr_server nc" "curr_server nc < num_servers nc"
  shows "0 \<le> curr_server nc' \<and> curr_server nc' < num_servers nc"
proof -
  have "nc' = next_server nc \<or> nc' = nc\<lparr>curr_service := curr_service nc + 1\<rparr>"
    using assms(1) by (auto simp: choose_next_server_def Let_def split: option.splits if_splits)
  then show ?thesis
    using next_server_index [OF assms(2,3)] assms(2,3) by auto
qed

lemma reconnect_cb_index:
  assumes "reconnect_cb nc rc = Some nc1"
    and "0 \<le> curr_server nc" "curr_server nc < num_servers nc"
  shows "0 \<le> curr_server nc1 \<and> curr_server nc1 < num_servers nc"
proof (cases "state nc \<noteq> network_client_closed \<or> num_servers nc = 0")
  case True
  then show ?thesis using assms by (simp add: reconnect_cb_def)
next
  case False
  with assms(1) obtain p nc0 where
    c: "choose_next_server nc = Some (p, nc0)" and "curr_server nc1 = curr_server nc0"
    by (auto simp: reconnect_cb_def Let_def emit_def split: option.splits prod.splits if_splits)
  with choose_next_server_index [OF c assms(2,3)] show ?thesis by simp
qed

lemma length_realloc_servers: "length (realloc_servers old n fresh) = n"
  by (cases old) (auto simp: realloc_servers_def)

lemma realloc_servers_nth:
  "i < length xs \<Longrightarrow> i < n \<Longrightarrow> realloc_servers (Some xs) n fresh ! i = xs ! i"
  by (simp add: realloc_servers_def nth_append)

lemma add_server_safe:
  assumes "network_client_add_server al fresh nc u = Some (r, nc')" and "fst (take_alloc al)"
  shows "\<exists>srv b. nc' = nc\<lparr>servers := Some ((realloc_servers (servers nc)
                                  (nat (num_servers nc + 1)) fresh)[nat (num_servers nc) := srv]),
                           num_servers := b\<rparr> \<and>
                 (b = num_servers nc \<or> b = num_servers nc + 1)"
proof -
  define arr where "arr = realloc_servers (servers nc) (nat (num_servers nc + 1)) fresh"
  from assms obtain rc srv al2 where
    p: "parse_server (snd (take_alloc al)) (arr ! nat (num_servers nc)) u = Some (rc, srv, al2)"
    and n: "nc' = (if rc \<noteq> 0 then nc\<lparr>servers := Some (arr[nat (num_servers nc) := srv])\<rparr>
                  else nc\<lparr>servers := Some (arr[nat (num_servers nc) := srv]),
                          num_servers := num_servers nc + 1\<rparr>)"
    by (auto simp: network_client_add_server_def Let_def arr_def
        split: prod.splits option.splits if_splits)
  show ?thesis
  proof (cases "rc \<noteq> 0")
    case True
    with n have "nc' = nc\<lparr>servers := Some (arr[nat (num_servers nc) := srv]),
                          num_servers := num_servers nc\<rparr>" by simp
    then show ?thesis unfolding arr_def by blast
  next
    case False
    with n have "nc' = nc\<lparr>servers := Some (arr[nat (num_servers nc) := srv]),
                          num_servers := num_servers nc + 1\<rparr>" by simp
    then show ?thesis unfolding arr_def by blast
  qed
qed

lemma tls_inv_add_server:
  assumes inv: "tls_inv nc" and li: "loop_inv nc"
    and add: "network_client_add_server al fresh nc u = Some (r, nc')"
    and safe: "fst (take_alloc al)"
  shows "tls_inv nc'"
proof -
  define n where "n = num_servers nc"
  define arr where "arr = realloc_servers (servers nc) (nat (n + 1)) fresh"
  from add_server_safe [OF add safe] obtain srv b where
    nc': "nc' = nc\<lparr>servers := Some (arr[nat n := srv]), num_servers := b\<rparr>" and
    b: "b = n \<or> b = n + 1"
    unfolding arr_def n_def by blast
  have n0: "0 \<le> n" using inv by (simp add: tls_inv_def n_def)
  have len: "length (arr[nat n := srv]) = nat (n + 1)"
    by (simp add: arr_def length_realloc_servers)
  have proto_eq: "curr_proto nc' = curr_proto nc" if "0 < n"
  proof -
    from that inv obtain xs where xs: "servers nc = Some xs" and l: "n \<le> int (length xs)"
      by (auto simp: tls_inv_def n_def split: option.splits)
    have c: "0 \<le> curr_server nc" "curr_server nc < n"
      using inv that by (auto simp: tls_inv_def n_def)
    then have "(arr[nat n := srv]) ! nat (curr_server nc) = xs ! nat (curr_server nc)"
      using l xs by (simp add: arr_def realloc_servers_nth)
    then show ?thesis
      using c l xs len
      by (simp add: curr_proto_def deref_server_def get_curr_server_def nc')
  qed
  show ?thesis
  proof (cases "0 < n")
    case True
    then show ?thesis
      using inv b proto_eq [OF True] len holds_tls_session_frame [of nc' nc]
      by (auto simp: tls_inv_def nc' n_def)
  next
    case False
    then have z: "n = 0" using n0 by simp
    then have cl: "state nc = network_client_closed"
      using inv by (auto simp: tls_inv_def n_def)
    then have "connect_reqs nc = 0" using li by (auto simp: loop_inv_def)
    moreover have "\<not> holds_tls_session nc" using inv cl by (auto simp: tls_inv_def)
    ultimately show ?thesis
      using inv b z len cl holds_tls_session_frame [of nc' nc]
      by (auto simp: tls_inv_def nc' n_def)
  qed
qed

lemma tls_inv_reconnect_cb:
  assumes inv: "tls_inv nc" and li: "loop_inv nc" and cb: "reconnect_cb nc rc = Some nc'"
  shows "tls_inv nc'"
proof (cases "state nc \<noteq> network_client_closed \<or> num_servers nc = 0")
  case True
  then show ?thesis using inv cb by (simp add: reconnect_cb_def)
next
  case False
  then have c: "state nc = network_client_closed" "num_servers nc \<noteq> 0" by auto
  have n: "0 < num_servers nc" "0 \<le> curr_server nc" "curr_server nc < num_servers nc"
    using inv c by (auto simp: tls_inv_def)
  have nh: "\<not> holds_tls_session nc" and cr: "connect_reqs nc = 0"
    using inv li c by (auto simp: tls_inv_def loop_inv_def)
  from reconnect_cb_attempt [OF cb c] obtain i j h v st where
    nc': "nc' = nc\<lparr>curr_server := i, curr_service := j, state := network_client_resolving,
                     trace := trace nc @ [Uv_getaddrinfo h v st],
                     getaddrinfo_reqs := getaddrinfo_reqs nc + (if rc = 0 then 1 else 0)\<rparr>"
    by blast
  have i: "0 \<le> i" "i < num_servers nc"
    using reconnect_cb_index [OF cb n(2,3)] by (simp_all add: nc')
  have "holds_tls_session nc' = holds_tls_session nc"
    by (rule holds_tls_session_frame) (simp_all add: nc')
  then show ?thesis
    using inv nh cr i n by (simp add: tls_inv_def nc')
qed

lemma tls_inv_resolving_cb:
  assumes inv: "tls_inv nc" and li: "loop_inv nc" and pending: "getaddrinfo_reqs nc \<noteq> 0"
    and cb: "resolving_cb (nc\<lparr>getaddrinfo_reqs := getaddrinfo_reqs nc - 1\<rparr>) status ai rc = Some nc'"
  shows "tls_inv nc'"
proof -
  define nc0 where "nc0 = nc\<lparr>getaddrinfo_reqs := getaddrinfo_reqs nc - 1\<rparr>"
  have st: "state nc = network_client_resolving"
    using li pending by (auto simp: loop_inv_def)
  have inv0: "tls_inv nc0"
    using inv tls_inv_frame [of nc0 nc] by (simp add: nc0_def)
  have nh: "\<not> holds_tls_session nc0" and cr: "connect_reqs nc0 = 0" and n: "0 < num_servers nc0"
    and st0: "state nc0 = network_client_resolving"
    using inv0 li st by (auto simp: tls_inv_def loop_inv_def nc0_def)
  from resolving_cb_cases [OF cb [folded nc0_def]] show ?thesis
  proof (elim disjE exE conjE)
    assume "nc' = set_closed nc0"
    then show ?thesis using tls_inv_set_closed [OF inv0 cr] by simp
  next
    fix s
    assume d: "deref_server nc0 (get_curr_server nc0) = Some s"
      and p: "proto s = network_client_proto_udp"
      and n': "nc' = (call_connect_cb (emit Uv_udp_init (nc0\<lparr>addrinfo := ai\<rparr>)))
                       \<lparr>state := network_client_connected\<rparr>"
    have "holds_tls_session nc' = holds_tls_session nc0"
      by (rule holds_tls_session_frame) (simp_all add: n' call_connect_cb_fields emit_def)
    moreover have "curr_proto nc' = curr_proto nc0"
      by (rule curr_proto_frame) (simp_all add: n' call_connect_cb_fields emit_def)
    moreover have "curr_proto nc0 = Some network_client_proto_udp"
      using d p by (simp add: curr_proto_def)
    ultimately show ?thesis
      using inv0 nh cr n
      by (simp add: tls_inv_def n' call_connect_cb_fields emit_def)
  next
    fix s
    assume d: "deref_server nc0 (get_curr_server nc0) = Some s"
      and p: "proto s \<noteq> network_client_proto_udp"
      and n': "nc' = (emit (Uv_tcp_connect rc)
                        ((emit Uv_tcp_init (nc0\<lparr>addrinfo := ai\<rparr>))\<lparr>conn_data := True\<rparr>))
                          \<lparr>connect_reqs := connect_reqs nc0 + 1,
                           state := network_client_connecting\<rparr>"
    have "holds_tls_session nc' = holds_tls_session nc0"
      by (rule holds_tls_session_frame) (simp_all add: n' emit_def)
    moreover have "curr_proto nc' = curr_proto nc0"
      by (rule curr_proto_frame) (simp_all add: n' emit_def)
    moreover have "curr_proto nc0 = Some network_client_proto_tcp \<or>
                   curr_proto nc0 = Some network_client_proto_tls"
      using d p by (cases "proto s") (simp_all add: curr_proto_def)
    ultimately show ?thesis
      using inv0 nh n by (simp add: tls_inv_def n' emit_def)
  next
    fix s assume n': "nc' = set_closed (emit (Uv_tcp_connect rc)
                                     ((emit Uv_tcp_init (nc0\<lparr>addrinfo := ai\<rparr>))
                                        \<lparr>conn_data := True\<rparr>))"
    have "tls_inv (emit (Uv_tcp_connect rc)
                     ((emit Uv_tcp_init (nc0\<lparr>addrinfo := ai\<rparr>))\<lparr>conn_data := True\<rparr>))"
      using inv0 tls_inv_frame [of "emit (Uv_tcp_connect rc)
                     ((emit Uv_tcp_init (nc0\<lparr>addrinfo := ai\<rparr>))\<lparr>conn_data := True\<rparr>)" nc0]
      by (simp add: emit_def)
    then show ?thesis
      unfolding n' using cr by (intro tls_inv_set_closed) (simp_all add: emit_def)
  qed
qed

lemma tls_inv_connect_tcp_cb:
  assumes inv: "tls_inv nc" and li: "loop_inv nc" and pending: "connect_reqs nc \<noteq> 0"
    and cb: "connect_tcp_cb (nc\<lparr>connect_reqs := connect_reqs nc - 1\<rparr>) status tls_new fileno_ok hs
               = Some nc'"
  shows "tls_inv nc'"
proof -
  define nc0 where "nc0 = nc\<lparr>connect_reqs := connect_reqs nc - 1\<rparr>"
  have st: "state nc = network_client_connecting" and one: "connect_reqs nc = 1"
    using li pending by (auto simp: loop_inv_def)
  have nhn: "\<not> holds_tls_session nc" using inv pending by (auto simp: tls_inv_def)
  have pr: "curr_proto nc = Some network_client_proto_tcp \<or>
            curr_proto nc = Some network_client_proto_tls"
    using inv pending by (auto simp: tls_inv_def)
  have "holds_tls_session nc0 = holds_tls_session nc"
    by (rule holds_tls_session_frame) (simp_all add: nc0_def)
  then have nh: "\<not> holds_tls_session nc0" using nhn by simp
  have pr0: "curr_proto nc0 = curr_proto nc"
    by (rule curr_proto_frame) (simp_all add: nc0_def)
  have inv0: "tls_live nc0 \<subseteq> set_option (tls nc0) \<and>
          0 \<le> curr_server nc0 \<and> 0 \<le> num_servers nc0 \<and>
          (num_servers nc0 = 0 \<longrightarrow> curr_server nc0 = 0) \<and>
          (0 < num_servers nc0 \<longrightarrow> curr_server nc0 < num_servers nc0) \<and>
          (servers nc0 = None \<longrightarrow> num_servers nc0 = 0) \<and>
          (\<forall>xs. servers nc0 = Some xs \<longrightarrow> num_servers nc0 \<le> int (length xs))"
    using inv by (simp add: tls_inv_def nc0_def)
  have cr: "connect_reqs nc0 = 0" and st0: "state nc0 = network_client_connecting"
    and n: "0 < num_servers nc0"
    using one st inv by (auto simp: nc0_def tls_inv_def)
  have live: "tls_live nc0 = {}" using tls_inv_no_session [OF inv nhn] by (simp add: nc0_def)
  from connect_tcp_cb_cases [OF cb [folded nc0_def]] show ?thesis
  proof (elim disjE exE conjE)
    assume "nc' = set_closed nc0"
    then show ?thesis using tls_inv_set_closed_gen [OF inv0 cr] by simp
  next
    fix s
    assume d: "deref_server nc0 (get_curr_server nc0) = Some s"
      and p: "proto s = network_client_proto_tcp"
      and n': "nc' = call_connect_cb (nc0\<lparr>state := network_client_connected\<rparr>)"
    have "holds_tls_session nc' = holds_tls_session nc0"
      by (rule holds_tls_session_frame) (simp_all add: n' call_connect_cb_fields)
    moreover have "curr_proto nc' = curr_proto nc0"
      by (rule curr_proto_frame) (simp_all add: n' call_connect_cb_fields)
    moreover have "curr_proto nc0 = Some network_client_proto_tcp"
      using d p by (simp add: curr_proto_def)
    ultimately show ?thesis
      using inv0 nh cr n by (simp add: tls_inv_def n' call_connect_cb_fields)
  next
    fix s assume n': "nc' = set_closed ((emit (Tls_client None) nc0)\<lparr>tls := None\<rparr>)"
    show ?thesis
      unfolding n' using inv0 cr live
      by (intro tls_inv_set_closed_gen) (simp_all add: emit_def)
  next
    fix s h
    assume d: "deref_server nc0 (get_curr_server nc0) = Some s"
      and p: "proto s \<noteq> network_client_proto_tcp"
      and n': "nc' = nc0\<lparr>trace := trace nc0 @
                                  [Tls_client (Some h), Tls_connect_socket (Some h) hs,
                                   Uv_poll_start],
                                tls := Some h, tls_live := insert h (tls_live nc0),
                                tls_state := hs, poll_watchers := poll_watchers nc0 + 1\<rparr>"
    have "curr_proto nc0 = Some network_client_proto_tls"
      using d p pr pr0 by (auto simp: curr_proto_def)
    moreover have "curr_proto nc' = curr_proto nc0"
      by (rule curr_proto_frame) (simp_all add: n')
    ultimately show ?thesis
      using inv0 cr st0 n live by (simp add: tls_inv_def holds_tls_session_def n')
  next
    fix s h
    assume d: "deref_server nc0 (get_curr_server nc0) = Some s"
      and p: "proto s \<noteq> network_client_proto_tcp"
      and n': "nc' = nc0\<lparr>trace := trace nc0 @ [Tls_client (Some h)],
                                tls := Some h, tls_live := insert h (tls_live nc0)\<rparr>"
    have "curr_proto nc0 = Some network_client_proto_tls"
      using d p pr pr0 by (auto simp: curr_proto_def)
    moreover have "curr_proto nc' = curr_proto nc0"
      by (rule curr_proto_frame) (simp_all add: n')
    ultimately show ?thesis
      using inv0 cr st0 n live by (simp add: tls_inv_def holds_tls_session_def n')
  qed
qed

lemma tls_inv_on_poll:
  assumes "tls_inv nc" "loop_inv nc"
  shows "tls_inv (on_poll nc hs)"
proof (cases "state nc = network_client_connecting \<and>
              (tls_state nc = TLS_READ_AGAIN \<or> tls_state nc = TLS_WRITE_AGAIN)")
  case True
  then have t: "tls_state nc \<noteq> 0"
    by (auto simp: TLS_READ_AGAIN_def TLS_WRITE_AGAIN_def)
  then have cr: "connect_reqs nc = 0" using assms(2) by (auto simp: loop_inv_def)
  have n: "0 < num_servers nc" using assms(1) True by (auto simp: tls_inv_def)
  have e: "on_poll nc hs =
          (if hs = 0
           then nc\<lparr>trace := trace nc @ [Tls_connect_socket (tls nc) hs], tls_state := hs,
                    state := network_client_connected\<rparr>
           else nc\<lparr>trace := trace nc @ [Tls_connect_socket (tls nc) hs], tls_state := hs\<rparr>)"
    using True by (simp add: on_poll_def emit_def Let_def)
  have "holds_tls_session (on_poll nc hs) = holds_tls_session nc"
    by (rule holds_tls_session_frame) (simp_all add: e)
  moreover have "curr_proto (on_poll nc hs) = curr_proto nc"
    by (rule curr_proto_frame) (simp_all add: e)
  ultimately show ?thesis
    using assms(1) True cr n by (auto simp: tls_inv_def e)
next
  case False
  then have "on_poll nc hs = nc" by (auto simp: on_poll_def)
  then show ?thesis using assms by simp
qed

lemma tls_inv_close:
  assumes "tls_inv nc" "network_client_close nc = Some (r, nc')"
  shows "tls_inv nc'"
proof (cases "state nc = network_client_connected")
  case True
  then have "nc' = (emit Uv_close nc)\<lparr>conn_closing := True\<rparr>"
    using assms(2) by (simp add: network_client_close_def split: if_splits)
  then show ?thesis
    using assms(1) tls_inv_frame [of nc' nc] by (simp add: emit_def)
next
  case False
  then show ?thesis using assms by (simp add: network_client_close_def)
qed

lemma tls_inv_on_close:
  assumes "tls_inv nc" "loop_inv nc" "conn_closing nc"
    "on_close (nc\<lparr>conn_closing := False\<rparr>) = Some nc'"
  shows "tls_inv nc'"
proof -
  have "state nc = network_client_connected" using assms by (simp add: loop_inv_def)
  then have "connect_reqs nc = 0" using assms(2) by (auto simp: loop_inv_def)
  moreover have "tls_inv (nc\<lparr>conn_closing := False\<rparr>)"
    using assms(1) tls_inv_frame [of "nc\<lparr>conn_closing := False\<rparr>" nc] by simp
  ultimately have "tls_inv (set_closed (nc\<lparr>conn_closing := False\<rparr>))"
    by (intro tls_inv_set_closed) simp_all
  then show ?thesis using assms(4) by (simp add: on_close_def split: if_splits)
qed

lemma tls_inv_cbs:
  "tls_inv (network_client_set_connect_cb nc cb arg) = tls_inv nc"
  "tls_inv (network_client_set_close_cb nc cb arg) = tls_inv nc"
  by (rule tls_inv_frame;
      simp add: network_client_set_connect_cb_def network_client_set_close_cb_def)+

lemma tls_inv_fire:
  assumes "tls_inv nc" "loop_inv nc" "registry_safe ev" "fire ev nc = Some nc'"
  shows "tls_inv nc'"
proof (cases ev)
  case (Add_server u al fresh)
  then obtain r where "network_client_add_server al fresh nc u = Some (r, nc')"
    using assms(4) by (auto simp: fire_def)
  then show ?thesis
    using assms(1,2,3) Add_server tls_inv_add_server [of nc al fresh u r nc']
    by (simp add: registry_safe_def)
next
  case Remove_servers
  then show ?thesis using assms(3) by (simp add: registry_safe_def)
next
  case (Set_connect_cb cb arg)
  then show ?thesis using assms by (auto simp: fire_def tls_inv_cbs)
next
  case (Set_close_cb cb arg)
  then show ?thesis using assms by (auto simp: fire_def tls_inv_cbs)
next
  case Close_request
  then obtain r where "network_client_close nc = Some (r, nc')"
    using assms(4) by (auto simp: fire_def)
  then show ?thesis using assms(1) tls_inv_close by blast
next
  case (Timer_fires rc)
  then show ?thesis using assms tls_inv_reconnect_cb by (simp add: fire_def)
next
  case (Getaddrinfo_done status ai rc)
  then show ?thesis
    using assms tls_inv_resolving_cb [of nc status ai rc nc']
    by (simp add: fire_def split: if_splits)
next
  case (Connect_done status tls_new fileno_ok hs)
  then show ?thesis
    using assms tls_inv_connect_tcp_cb [of nc status tls_new fileno_ok hs nc']
    by (simp add: fire_def split: if_splits)
next
  case (Poll_ready hs)
  then show ?thesis
    using assms tls_inv_on_poll [of nc hs] by (auto simp: fire_def split: if_splits)
next
  case Close_done
  then show ?thesis
    using assms tls_inv_on_close [of nc nc'] by (auto simp: fire_def split: if_splits)
qed

lemma tls_inv_run:
  "tls_inv nc \<Longrightarrow> loop_inv nc \<Longrightarrow> list_all registry_safe evs \<Longrightarrow> run evs nc = Some nc' \<Longrightarrow>
   tls_inv nc'"
proof (induction evs arbitrary: nc)
  case Nil
  then show ?case by simp
next
  case (Cons ev evs)
  from Cons.prems(4) obtain nc1 where
    f: "fire ev nc = Some nc1" and r: "run evs nc1 = Some nc'"
    by (auto split: option.splits)
  have "tls_inv nc1" using tls_inv_fire [OF Cons.prems(1,2) _ f] Cons.prems(3) by simp
  moreover have "loop_inv nc1" using loop_inv_fire [OF Cons.prems(2) f] .
  ultimately show ?case using Cons.IH [OF _ _ _ r] Cons.prems(3) by simp
qed

subsection \<open>The two-server scenario\<close>

lemma run_append:
  "run (xs @ ys) nc = (case run xs nc of None \<Rightarrow> None | Some nc' \<Rightarrow> run ys nc')"
  by (induction xs arbitrary: nc) (simp_all split: option.splits)

lemma attempts_append: "attempts (xs @ ys) = attempts xs @ attempts ys"
  by (induction xs rule: attempts.induct) simp_all

lemma attempts_set_closed: "attempts (trace (set_closed nc)) = attempts (trace nc)"
  by (simp add: set_closed_def call_close_cb_def emit_def Let_def attempts_append
      split: option.splits)

text \<open>
  The timer fires on the two servers with the cursor at server \<open>i\<close>: the selector moves
  to the other server and its resolution is issued.
\<close>

lemma two_servers_timer:
  assumes "two_servers_at nc i" and "i = 0 \<or> i = 1"
  shows "reconnect_cb nc 0 =
           Some (nc\<lparr>curr_server := 1 - i, curr_service := 0, state := network_client_resolving,
                    trace := trace nc @
                      [if i = 0 then Uv_getaddrinfo (Some ''b'') (Some ''80'') SOCK_STREAM
                       else Uv_getaddrinfo (Some ''a'') (Some ''53'') SOCK_DGRAM],
                    getaddrinfo_reqs := 1\<rparr>)"
proof -
  from assms(1) obtain rest where
    xs: "servers nc = Some (server_a # server_b # rest)"
    by (auto simp: two_servers_at_def split: option.splits list.splits)
  from assms(1) have f: "num_servers nc = 2" "curr_server nc = i" "curr_service nc = 0"
    "state nc = network_client_closed" "getaddrinfo_reqs nc = 0"
    by (simp_all add: two_servers_at_def)
  from assms(2) show ?thesis
  proof
    assume "i = 0"
    then show ?thesis
      using xs f
      by (simp add: reconnect_cb_def choose_next_server_def get_curr_server_def
          deref_server_def next_server_def get_curr_service_def server_a_def server_b_def
          string_arg_def emit_def Let_def)
  next
    assume "i = 1"
    then show ?thesis
      using xs f
      by (simp add: reconnect_cb_def choose_next_server_def get_curr_server_def
          deref_server_def next_server_def get_curr_service_def server_a_def server_b_def
          string_arg_def emit_def Let_def)
  qed
qed

text \<open>
  An attempt that ends in the state Closed leaves the two servers with the cursor at the
  server just tried, whichever way it failed.
\<close>

lemma failing_attempt_round:
  assumes at: "two_servers_at nc i" and i: "i = 0 \<or> i = 1"
    and r: "run (failing_attempt f) nc = Some nc'" and cl: "state nc' = network_client_closed"
  shows "two_servers_at nc' (1 - i) \<and>
         attempts (trace nc') =
           attempts (trace nc) @
           [if i = 0 then (Some ''b'', Some ''80'') else (Some ''a'', Some ''53'')]"
proof -
  define tgt where
    "tgt = (if i = 0 then (Some ''b'', Some ''80'') else (Some ''a'', Some ''53''))"
  define ok where
    "ok = (\<lambda>x :: network_client. servers x = servers nc \<and> num_servers x = 2 \<and> curr_server x = 1 - i \<and>
               curr_service x = 0 \<and> getaddrinfo_reqs x = 0 \<and> connect_reqs x = 0 \<and>
               attempts (trace x) = attempts (trace nc) @ [tgt])"
  have fin: "two_servers_at (set_closed x) (1 - i) \<and>
              attempts (trace (set_closed x)) = attempts (trace nc) @ [tgt]" if "ok x"
    for x :: network_client
    using that at
    by (simp add: ok_def two_servers_at_def set_closed_fields attempts_set_closed)
  define nc1 where
    "nc1 = nc\<lparr>curr_server := 1 - i, curr_service := 0, state := network_client_resolving,
              trace := trace nc @
                [if i = 0 then Uv_getaddrinfo (Some ''b'') (Some ''80'') SOCK_STREAM
                 else Uv_getaddrinfo (Some ''a'') (Some ''53'') SOCK_DGRAM],
              getaddrinfo_reqs := 1\<rparr>"
  have t: "fire (Timer_fires 0) nc = Some nc1"
    using two_servers_timer [OF at i] by (simp add: fire_def nc1_def)
  define nc2 where "nc2 = nc1\<lparr>getaddrinfo_reqs := getaddrinfo_reqs nc1 - 1\<rparr>"
  have cr: "connect_reqs nc = 0" using at by (simp add: two_servers_at_def)
  have ok2: "ok nc2"
    using at by (simp add: ok_def nc2_def nc1_def two_servers_at_def attempts_append tgt_def)
  have g: "fire (Getaddrinfo_done status ai rc) nc1 = resolving_cb nc2 status ai rc"
    for status ai rc
    by (simp add: fire_def nc2_def nc1_def)
  have res: "two_servers_at x (1 - i) \<and> attempts (trace x) = attempts (trace nc) @ [tgt]"
    if "resolving_cb nc2 status ai rc = Some x" "state x = network_client_closed"
    for status ai rc and x :: network_client
    using resolving_cb_cases [OF that(1)]
  proof (elim disjE exE conjE)
    assume "x = set_closed nc2"
    then show ?thesis using fin [OF ok2] by simp
  next
    assume "x = (call_connect_cb (emit Uv_udp_init (nc2\<lparr>addrinfo := ai\<rparr>)))
                  \<lparr>state := network_client_connected\<rparr>"
    then show ?thesis using that(2) by simp
  next
    assume "x = (emit (Uv_tcp_connect rc)
                   ((emit Uv_tcp_init (nc2\<lparr>addrinfo := ai\<rparr>))\<lparr>conn_data := True\<rparr>))
                  \<lparr>connect_reqs := connect_reqs nc2 + 1, state := network_client_connecting\<rparr>"
    then show ?thesis using that(2) by simp
  next
    assume x: "x = set_closed (emit (Uv_tcp_connect rc)
                     ((emit Uv_tcp_init (nc2\<lparr>addrinfo := ai\<rparr>))\<lparr>conn_data := True\<rparr>))"
    have "ok (emit (Uv_tcp_connect rc)
                ((emit Uv_tcp_init (nc2\<lparr>addrinfo := ai\<rparr>))\<lparr>conn_data := True\<rparr>))"
      using ok2 by (simp add: ok_def emit_def attempts_append)
    from fin [OF this] show ?thesis by (simp add: x)
  qed
  show ?thesis
  proof (cases f)
    case (Resolution_fails status)
    then have "resolving_cb nc2 status None 0 = Some nc'"
      using r t g by (auto split: option.splits)
    from res [OF this cl] show ?thesis by (simp add: tgt_def)
  next
    case (Connect_refused ai rc)
    then have "resolving_cb nc2 0 (Some ai) rc = Some nc'"
      using r t g by (auto split: option.splits)
    from res [OF this cl] show ?thesis by (simp add: tgt_def)
  next
    case (Connect_fails ai status)
    then obtain nc3 where
      r3: "resolving_cb nc2 0 (Some ai) 0 = Some nc3" and
      c: "fire (Connect_done status None False 0) nc3 = Some nc'"
      using r t g by (auto split: option.splits)
    from c have p: "connect_reqs nc3 \<noteq> 0" and
      cb: "connect_tcp_cb (nc3\<lparr>connect_reqs := connect_reqs nc3 - 1\<rparr>) status None False 0 =
             Some nc'"
      by (auto simp: fire_def split: if_splits)
    define nc4 where "nc4 = nc3\<lparr>connect_reqs := connect_reqs nc3 - 1\<rparr>"
    have n3: "nc3 = (emit (Uv_tcp_connect 0)
                   ((emit Uv_tcp_init (nc2\<lparr>addrinfo := Some ai\<rparr>))\<lparr>conn_data := True\<rparr>))
                  \<lparr>connect_reqs := connect_reqs nc2 + 1, state := network_client_connecting\<rparr>"
      using resolving_cb_cases [OF r3] p ok2
      by (auto simp: ok_def set_closed_fields call_connect_cb_fields emit_def)
    have ok4: "ok nc4"
      using ok2 by (simp add: ok_def nc4_def n3 emit_def attempts_append)
    from connect_tcp_cb_cases [OF cb [folded nc4_def]] show ?thesis
    proof (elim disjE exE conjE)
      assume "nc' = set_closed nc4"
      then show ?thesis using fin [OF ok4] by (simp add: tgt_def)
    next
      assume "nc' = call_connect_cb (nc4\<lparr>state := network_client_connected\<rparr>)"
      then show ?thesis using cl by (simp add: call_connect_cb_fields)
    next
      assume x: "nc' = set_closed ((emit (Tls_client None) nc4)\<lparr>tls := None\<rparr>)"
      have "ok ((emit (Tls_client None) nc4)\<lparr>tls := None\<rparr>)"
        using ok4 by (simp add: ok_def emit_def attempts_append)
      from fin [OF this] show ?thesis by (simp add: x tgt_def)
    qed simp_all
  qed
qed

lemma failing_attempts_from:
  assumes "two_servers_at nc i" and "i = 0 \<or> i = 1" and "attempts_fail fs nc"
  shows "\<exists>nc'. run (concat (map failing_attempt fs)) nc = Some nc' \<and>
           attempts (trace nc') =
             attempts (trace nc) @
             map (\<lambda>k. if even k = (i = 0) then (Some ''b'', Some ''80'')
                       else (Some ''a'', Some ''53''))
               [0..<length fs]"
  using assms
proof (induction fs arbitrary: nc i)
  case Nil
  then show ?case by simp
next
  case (Cons f fs)
  from Cons.prems(3) obtain nc1 where
    r1: "run (failing_attempt f) nc = Some nc1" and
    c1: "state nc1 = network_client_closed" and
    rest: "attempts_fail fs nc1"
    by (auto split: option.splits)
  from failing_attempt_round [OF Cons.prems(1,2) r1 c1] have
    i1: "two_servers_at nc1 (1 - i)" and
    a1: "attempts (trace nc1) =
           attempts (trace nc) @
           [if i = 0 then (Some ''b'', Some ''80'') else (Some ''a'', Some ''53'')]"
    by simp_all
  have j: "1 - i = 0 \<or> 1 - i = 1" using Cons.prems(2) by auto
  from Cons.IH [OF i1 j rest] obtain nc' where
    r2: "run (concat (map failing_attempt fs)) nc1 = Some nc'" and
    a2: "attempts (trace nc') =
           attempts (trace nc1) @
           map (\<lambda>k. if even k = (1 - i = 0) then (Some ''b'', Some ''80'')
                     else (Some ''a'', Some ''53''))
             [0..<length fs]"
    by blast
  have "run (concat (map failing_attempt (f # fs))) nc = Some nc'"
    using r1 r2 run_append [of "failing_attempt f" "concat (map failing_attempt fs)" nc]
    by simp
  moreover have "attempts (trace nc') =
             attempts (trace nc) @
             map (\<lambda>k. if even k = (i = 0) then (Some ''b'', Some ''80'')
                       else (Some ''a'', Some ''53''))
               [0..<length (f # fs)]"
    using a1 a2 Cons.prems(2) by (auto simp: map_upt_Suc simp del: upt_Suc)
  ultimately show ?case by blast
qed

subsection \<open>Cursors as integer pairs\<close>

lemma inj_int_pair: "inj int_pair"
  by (auto simp: inj_on_def int_pair_def prod_eq_iff)

lemma int_pair_image:
  "int_pair ` {(i, j). i < n \<and> int j < f i} =
   {(i, j). 0 \<le> i \<and> i < int n \<and> 0 \<le> j \<and> j < f (nat i)}"
proof (intro set_eqI iffI)
  fix p assume "p \<in> int_pair ` {(i, j). i < n \<and> int j < f i}"
  then show "p \<in> {(i, j). 0 \<le> i \<and> i < int n \<and> 0 \<le> j \<and> j < f (nat i)}"
    by (auto simp: int_pair_def)
next
  fix p assume p: "p \<in> {(i, j). 0 \<le> i \<and> i < int n \<and> 0 \<le> j \<and> j < f (nat i)}"
  then have "(nat (fst p), nat (snd p)) \<in> {(i, j). i < n \<and> int j < f i}"
    by (auto simp: nat_less_iff)
  moreover have "p = int_pair (nat (fst p), nat (snd p))"
    using p by (auto simp: int_pair_def)
  ultimately show "p \<in> int_pair ` {(i, j). i < n \<and> int j < f i}"
    by (rule rev_image_eqI)
qed

subsection \<open>A failed registration after the array was reallocated\<close>

text \<open>
  The slots below \<^verbatim>\<open>num_servers\<close> and the count are as before.
\<close>

lemma add_server_failure_after_realloc:
  assumes "network_client_add_server al fresh nc u = Some (r, nc')" and "fst (take_alloc al)"
    and "r \<noteq> 0" and "servers nc = Some xs" and "nat (num_servers nc) \<le> length xs"
  shows "num_servers nc' = num_servers nc \<and>
         (\<exists>ys. servers nc' = Some ys \<and>
            take (nat (num_servers nc)) ys = take (nat (num_servers nc)) xs)"
proof -
  define arr where "arr = realloc_servers (servers nc) (nat (num_servers nc + 1)) fresh"
  from assms(1,2,3) obtain rc srv al2 where
    p: "parse_server (snd (take_alloc al)) (arr ! nat (num_servers nc)) u = Some (rc, srv, al2)"
    and n: "nc' = nc\<lparr>servers := Some (arr[nat (num_servers nc) := srv])\<rparr>"
    by (auto simp: network_client_add_server_def Let_def arr_def
        split: prod.splits option.splits if_splits)
  have "take (nat (num_servers nc)) (arr[nat (num_servers nc) := srv]) =
        take (nat (num_servers nc)) xs"
    using assms(4,5) by (simp add: arr_def realloc_servers_def)
  then show ?thesis using n by simp
qed

text \<open>
  The slot that a registration adds is read before it is written: \<^verbatim>\<open>parse_server\<close>
  hands its \<^verbatim>\<open>services\<close> and \<^verbatim>\<open>num_services\<close> to \<^verbatim>\<open>reallocarray\<close>. When the added
  storage holds a pointer that is none, the registration is undefined; when it holds a
  count of 2, the registered server has three services, two of which are indeterminate.
\<close>

lemma add_server_reads_added_slot:
  "network_client_add_server [] (\<lambda>i. zero_server\<lparr>services := Wild\<rparr>) network_client_new
     ''udp://a:53'' = None \<and>
   (case network_client_add_server [] (\<lambda>i. zero_server\<lparr>num_services := 2\<rparr>)
           network_client_new ''udp://a:53'' of
      None \<Rightarrow> False
    | Some (rc, nc) \<Rightarrow>
        rc = 0 \<and> num_servers nc = 1 \<and>
        map_option (map num_services) (servers nc) = Some [3] \<and>
        map_option (map services) (servers nc) = Some [Ptr [Wild, Wild, Ptr ''53'']])"
  by code_simp

section \<open>The claims\<close>

text \<open>
  C1. On a TLS target, a handshake step that reports success should move the client from
  Connecting to Connected and fire the connect callback once. The run below registers a
  TLS server and a connect callback, resolves, connects, creates session 7 with a first
  handshake step that asks for a retry, and then delivers a readiness notification whose
  handshake step succeeds. \<^verbatim>\<open>on_poll\<close> sets the state to Connected and calls nothing: the
  trace of the whole attempt holds no invocation of the connect callback.
\<close>

theorem tls_handshake_success_fires_no_connect_cb:
  "(case run [Add_server ''tls://c2.example.com:443'' [] zeroed, Set_connect_cb (Some 1) 2,
              Timer_fires 0, Getaddrinfo_done 0 (Some 5) 0,
              Connect_done 0 (Some 7) True TLS_READ_AGAIN, Poll_ready 0]
          network_client_new of
      None \<Rightarrow> False
    | Some w \<Rightarrow>
        state w = network_client_connected \<and> connect_cb w = Some 1 \<and>
        filter is_connect_cb_call (trace w) = [] \<and>
        trace w =
          [Uv_getaddrinfo (Some ''c2.example.com'') (Some ''443'') SOCK_STREAM,
           Uv_tcp_init, Uv_tcp_connect 0, Tls_client (Some 7),
           Tls_connect_socket (Some 7) TLS_READ_AGAIN, Uv_poll_start,
           Tls_connect_socket (Some 7) 0])"
  by code_simp

text \<open>
  The first handshake step is taken in \<^verbatim>\<open>connect_tcp_cb\<close>. When that step already
  reports success the state is left at Connecting, and since \<^verbatim>\<open>on_poll\<close> acts only on a
  retry code, nothing moves the client on.
\<close>

lemma tls_immediate_handshake_success_stays_connecting:
  "(case run [Add_server ''tls://c2.example.com:443'' [] zeroed, Set_connect_cb (Some 1) 2,
              Timer_fires 0, Getaddrinfo_done 0 (Some 5) 0, Connect_done 0 (Some 7) True 0]
          network_client_new of
      None \<Rightarrow> False
    | Some w \<Rightarrow>
        state w = network_client_connecting \<and> tls_state w = 0 \<and>
        filter is_connect_cb_call (trace w) = [] \<and>
        run [Poll_ready 0, Timer_fires 0, Poll_ready 0] w = Some w)"
  by code_simp

text \<open>
  Whatever the client and whatever the handshake step returns, \<^verbatim>\<open>on_poll\<close> invokes no
  callback.
\<close>

lemma on_poll_calls_no_callback:
  "filter is_connect_cb_call (trace (on_poll nc hs)) = filter is_connect_cb_call (trace nc) \<and>
   filter is_close_cb_call (trace (on_poll nc hs)) = filter is_close_cb_call (trace nc)"
  by (simp add: on_poll_def emit_def Let_def)

text \<open>
  C2. A fatal handshake failure should force the state to Closed. The same run, with the
  readiness notification's handshake step returning \<open>- 1\<close>: the state stays Connecting, the
  session stays allocated, the close callback is not called, and later timer firings and
  readiness notifications change nothing, so the client never leaves Connecting.
\<close>

theorem tls_fatal_handshake_leaves_connecting:
  "(case run [Add_server ''tls://c2.example.com:443'' [] zeroed, Set_close_cb (Some 3) 4,
              Timer_fires 0, Getaddrinfo_done 0 (Some 5) 0,
              Connect_done 0 (Some 7) True TLS_READ_AGAIN, Poll_ready (- 1)]
          network_client_new of
      None \<Rightarrow> False
    | Some w \<Rightarrow>
        state w = network_client_connecting \<and> tls_state w = - 1 \<and>
        holds_tls_session w \<and> filter is_close_cb_call (trace w) = [] \<and>
        run [Timer_fires 0, Poll_ready 0, Poll_ready (- 1), Timer_fires 0] w = Some w)"
  by code_simp

text \<open>
  In general: from Connecting, \<^verbatim>\<open>on_poll\<close> never reaches Closed, and once
  \<^verbatim>\<open>tls_state\<close> is \<open>- 1\<close> in Connecting, readiness notifications and timer firings
  leave the client as it is.
\<close>

lemma on_poll_never_closes:
  "state nc = network_client_connecting \<Longrightarrow>
   state (on_poll nc hs) = network_client_connecting \<or>
   state (on_poll nc hs) = network_client_connected"
  by (simp add: on_poll_def emit_def Let_def)

lemma stranded_after_fatal_handshake:
  assumes "state nc = network_client_connecting" and "tls_state nc = - 1"
  shows "on_poll nc hs = nc" and "reconnect_cb nc rc = Some nc"
  using assms
  by (simp_all add: on_poll_def reconnect_cb_def TLS_READ_AGAIN_def TLS_WRITE_AGAIN_def)

text \<open>
  C3. A failing \<^verbatim>\<open>add_server\<close> should leave the registry as it was. With one server
  registered, a second call whose \<^verbatim>\<open>reallocarray\<close> fails returns \<open>- 1\<close> and has
  already overwritten \<^verbatim>\<open>nc->servers\<close> with \<^verbatim>\<open>NULL\<close> while \<^verbatim>\<open>num_servers\<close> is still 1:
  the registered server is lost, and the next firing of the timer dereferences \<^verbatim>\<open>NULL\<close>.
\<close>

theorem add_server_alloc_failure_loses_registry:
  "(case run [Add_server ''tcp://a:1'' [] zeroed] network_client_new of
      None \<Rightarrow> False
    | Some nc \<Rightarrow>
        map_option (map uri) (servers nc) = Some [Ptr ''tcp://a:1''] \<and> num_servers nc = 1 \<and>
        (case network_client_add_server [False] zeroed nc ''tcp://b:2'' of
           None \<Rightarrow> False
         | Some (rc, nc') \<Rightarrow>
             rc = - 1 \<and> servers nc' = None \<and> num_servers nc' = 1 \<and>
             run [Timer_fires 0] nc' = None))"
  by code_simp

text \<open>
  C4. With \<^verbatim>\<open>udp://a:53\<close> registered first and \<^verbatim>\<open>tcp://b:80\<close> second, the claim
  expects the attempts a/53, b/80, a/53, b/80. \<^verbatim>\<open>reconnect_cb\<close> calls
  \<^verbatim>\<open>choose_next_server\<close> before every attempt, the first included, so the cursor has left
  the first server when the first resolution is issued. Four attempts that fail (in
  resolution, in resolution, at the completion of the transport connect, in resolution) go
  to b/80, a/53, b/80, a/53.
\<close>

theorem two_server_first_attempt_counterexample:
  "two_servers_at two_registered 0 \<and>
   attempts_fail [Resolution_fails (- 1), Resolution_fails (- 1),
                  Connect_fails 5 (- 111), Resolution_fails (- 1)] two_registered \<and>
   (case run (concat (map failing_attempt
                [Resolution_fails (- 1), Resolution_fails (- 1),
                 Connect_fails 5 (- 111), Resolution_fails (- 1)])) two_registered of
      None \<Rightarrow> False
    | Some w \<Rightarrow>
        attempts (trace w) =
          [(Some ''b'', Some ''80''), (Some ''a'', Some ''53''),
           (Some ''b'', Some ''80''), (Some ''a'', Some ''53'')] \<and>
        attempts (trace w) \<noteq>
          [(Some ''a'', Some ''53''), (Some ''b'', Some ''80''),
           (Some ''a'', Some ''53''), (Some ''b'', Some ''80'')])"
  by code_simp

text \<open>
  Registering the two servers on a fresh client, the added storage being zero-filled, gives
  \<open>two_registered\<close>.
\<close>

lemma two_registered_by_add_server:
  "(case run [Add_server ''udp://a:53'' [] zeroed, Add_server ''tcp://b:80'' [] zeroed]
          network_client_new of
      None \<Rightarrow> False
    | Some nc \<Rightarrow> nc = two_registered)"
  by code_simp

text \<open>
  C4, as the code has it: take a client whose registry holds the two servers in this order,
  with the cursor where construction left it, the state Closed and no request outstanding.
  For any number of attempts that each fail, in whichever way (failed resolution, refused
  or failed transport connect), the targets alternate with period 2, starting with the
  server registered second.
\<close>

theorem two_server_attempt_order:
  assumes "two_servers_at nc 0" and "attempts_fail fs nc"
  shows "\<exists>w. run (concat (map failing_attempt fs)) nc = Some w \<and>
           attempts (trace w) = attempts (trace nc) @ alternating (length fs)"
proof -
  from failing_attempts_from [OF assms(1) _ assms(2)] obtain w where
    "run (concat (map failing_attempt fs)) nc = Some w"
    "attempts (trace w) =
       attempts (trace nc) @
       map (\<lambda>k. if even k = (0 = (0::int)) then (Some ''b'', Some ''80'')
                 else (Some ''a'', Some ''53''))
         [0..<length fs]"
    by auto
  then show ?thesis by (simp add: alternating_def)
qed

theorem two_server_attempt_order_witness:
  "\<exists>nc w.
     run [Add_server ''udp://a:53'' [] zeroed, Add_server ''tcp://b:80'' [] zeroed]
       network_client_new = Some nc \<and>
     two_servers_at nc 0 \<and>
     attempts_fail [Connect_fails 5 (- 111), Resolution_fails (- 3008),
                    Connect_refused 6 (- 13)] nc \<and>
     run (concat (map failing_attempt
            [Connect_fails 5 (- 111), Resolution_fails (- 3008), Connect_refused 6 (- 13)])) nc
       = Some w \<and>
     attempts (trace w) =
       [(Some ''b'', Some ''80''), (Some ''a'', Some ''53''), (Some ''b'', Some ''80'')]"
proof -
  let ?fs = "[Connect_fails 5 (- 111), Resolution_fails (- 3008), Connect_refused 6 (- 13)]"
  have "(case run [Add_server ''udp://a:53'' [] zeroed, Add_server ''tcp://b:80'' [] zeroed]
           network_client_new of
          None \<Rightarrow> False
        | Some nc \<Rightarrow> two_servers_at nc 0 \<and> attempts_fail ?fs nc \<and> trace nc = [])"
    by code_simp
  then obtain nc where
    r: "run [Add_server ''udp://a:53'' [] zeroed, Add_server ''tcp://b:80'' [] zeroed]
          network_client_new = Some nc" and
    h: "two_servers_at nc 0" "attempts_fail ?fs nc" and
    t: "trace nc = []"
    by (auto split: option.splits)
  have "alternating (length ?fs) =
          [(Some ''b'', Some ''80''), (Some ''a'', Some ''53''), (Some ''b'', Some ''80'')]"
    by code_simp
  with two_server_attempt_order [OF h] r h t show ?thesis by auto
qed

text \<open>
  C5. The claim says that a TLS session is held exactly when the target is a TLS server
  and the state is Connecting or Connected, and that the session is released exactly once on
  the transition to Closed. Four runs, each after registering one TLS server:
  \<^item> the state is Connecting from the moment the transport connect is issued, and the
    session is created only in \<^verbatim>\<open>connect_tcp_cb\<close>, when that connect has completed: in
    between, the target is TLS, the state is Connecting and no session exists;
  \<^item> the registry is cleared while the session is held: the session stays, and there is no
    current target;
  \<^item> a registration whose array reallocation fails while the session is held: the same;
  \<^item> the connection is closed and the next attempt fails in resolution: \<^verbatim>\<open>set_closed\<close>
    has left \<^verbatim>\<open>nc->tls\<close> pointing at the session it freed, and passes it to
    \<^verbatim>\<open>tls_free\<close> a second time.
\<close>

theorem tls_session_claim_counterexample:
  "(case run [Add_server ''tls://c2.example.com:443'' [] zeroed, Timer_fires 0,
              Getaddrinfo_done 0 (Some 5) 0]
          network_client_new of
      None \<Rightarrow> False
    | Some w \<Rightarrow>
        curr_proto w = Some network_client_proto_tls \<and>
        state w = network_client_connecting \<and> connect_reqs w = 1 \<and>
        tls w = None \<and> \<not> holds_tls_session w) \<and>
   (case run [Add_server ''tls://c2.example.com:443'' [] zeroed, Timer_fires 0,
              Getaddrinfo_done 0 (Some 5) 0, Connect_done 0 (Some 7) True TLS_READ_AGAIN,
              Remove_servers]
          network_client_new of
      None \<Rightarrow> False
    | Some w \<Rightarrow>
        holds_tls_session w \<and> state w = network_client_connecting \<and> curr_proto w = None) \<and>
   (case run [Add_server ''tls://c2.example.com:443'' [] zeroed, Timer_fires 0,
              Getaddrinfo_done 0 (Some 5) 0, Connect_done 0 (Some 7) True TLS_READ_AGAIN,
              Add_server ''tcp://b:80'' [False] zeroed]
          network_client_new of
      None \<Rightarrow> False
    | Some w \<Rightarrow>
        holds_tls_session w \<and> state w = network_client_connecting \<and> curr_proto w = None) \<and>
   (case run [Add_server ''tls://c2.example.com:443'' [] zeroed, Timer_fires 0,
              Getaddrinfo_done 0 (Some 5) 0, Connect_done 0 (Some 7) True TLS_READ_AGAIN,
              Poll_ready 0, Close_request, Close_done,
              Timer_fires 0, Getaddrinfo_done (- 1) None 0]
          network_client_new of
      None \<Rightarrow> False
    | Some w \<Rightarrow>
        state w = network_client_closed \<and>
        filter (\<lambda>e. e = Tls_free 7 \<or> e = Tls_client (Some 7)) (trace w) =
          [Tls_client (Some 7), Tls_free 7, Tls_free 7])"
  by code_simp

text \<open>
  C5, as the code has it. In every state reached from a fresh client by registrations,
  clears, timer firings, completions and close requests, an allocated session is held only
  in the states Connecting and Connected, with no transport connect pending; in the state
  Closed no session is allocated; and the only session that can be allocated is the one
  \<^verbatim>\<open>nc->tls\<close> points at. When moreover the registry was not cleared and the
  reallocations of its array succeeded, a session is held if and only if the target's
  protocol is TLS, the state is Connecting or Connected and no transport connect is pending.
\<close>

theorem tls_session_only_while_connecting_or_connected:
  assumes "run evs network_client_new = Some w"
  shows "(holds_tls_session w \<longrightarrow>
            (state w = network_client_connecting \<or> state w = network_client_connected) \<and>
            connect_reqs w = 0) \<and>
         (state w = network_client_closed \<longrightarrow> tls_live w = {}) \<and>
         tls_live w \<subseteq> set_option (tls w) \<and>
         (list_all registry_safe evs \<longrightarrow>
            (holds_tls_session w \<longleftrightarrow>
               curr_proto w = Some network_client_proto_tls \<and>
               (state w = network_client_connecting \<or> state w = network_client_connected) \<and>
               connect_reqs w = 0))"
proof -
  have inv: "session_inv w"
    using session_inv_run [OF session_inv_new loop_inv_new assms] .
  have 1: "holds_tls_session w \<longrightarrow>
            (state w = network_client_connecting \<or> state w = network_client_connected) \<and>
            connect_reqs w = 0"
    and 3: "tls_live w \<subseteq> set_option (tls w)"
    using inv by (simp_all add: session_inv_def)
  have 2: "state w = network_client_closed \<longrightarrow> tls_live w = {}"
    using session_inv_no_session [OF inv] 1 by auto
  have 4: "holds_tls_session w \<longleftrightarrow>
               curr_proto w = Some network_client_proto_tls \<and>
               (state w = network_client_connecting \<or> state w = network_client_connected) \<and>
               connect_reqs w = 0"
    if "list_all registry_safe evs"
    using tls_inv_run [OF tls_inv_new loop_inv_new that assms] by (auto simp: tls_inv_def)
  from 1 2 3 4 show ?thesis by blast
qed

theorem tls_session_only_while_connecting_or_connected_witness:
  "\<exists>w. run [Add_server ''tls://c2.example.com:443'' [] zeroed, Timer_fires 0,
            Getaddrinfo_done 0 (Some 5) 0, Connect_done 0 (Some 7) True TLS_READ_AGAIN,
            Poll_ready 0]
         network_client_new = Some w \<and>
       holds_tls_session w \<and> curr_proto w = Some network_client_proto_tls \<and>
       state w = network_client_connected \<and> connect_reqs w = 0 \<and> tls_live w = {7}"
proof -
  let ?evs = "[Add_server ''tls://c2.example.com:443'' [] zeroed, Timer_fires 0,
            Getaddrinfo_done 0 (Some 5) 0, Connect_done 0 (Some 7) True TLS_READ_AGAIN,
            Poll_ready 0]"
  have "(case run ?evs network_client_new of
           None \<Rightarrow> False
         | Some w \<Rightarrow> holds_tls_session w \<and> state w = network_client_connected \<and> tls w = Some 7)"
    by code_simp
  then obtain w where
    r: "run ?evs network_client_new = Some w" and
    h: "holds_tls_session w" "state w = network_client_connected" "tls w = Some 7"
    by (auto split: option.splits)
  have s: "list_all registry_safe ?evs"
    by (simp add: registry_safe_def)
  from tls_session_only_while_connecting_or_connected [OF r] s h r show ?thesis
    by (auto simp: holds_tls_session_def)
qed

text \<open>
  \<^verbatim>\<open>set_closed\<close> resets \<^verbatim>\<open>nc->addrinfo\<close> after freeing it, and leaves \<^verbatim>\<open>nc->tls\<close>
  pointing at the session it has freed. After a TLS connection is closed, the pointer is
  still set in the state Closed, and the next transition to Closed (here a failed resolution)
  passes the same session to \<^verbatim>\<open>tls_free\<close> again.
\<close>

lemma tls_session_freed_twice:
  "(case run [Add_server ''tls://c2.example.com:443'' [] zeroed, Timer_fires 0,
              Getaddrinfo_done 0 (Some 5) 0, Connect_done 0 (Some 7) True TLS_READ_AGAIN,
              Poll_ready 0, Close_request, Close_done]
          network_client_new of
      None \<Rightarrow> False
    | Some w \<Rightarrow>
        state w = network_client_closed \<and> tls w = Some 7 \<and>
        filter (\<lambda>e. e = Tls_free 7) (trace w) = [Tls_free 7] \<and>
        (case run [Timer_fires 0, Getaddrinfo_done (- 1) None 0] w of
           None \<Rightarrow> False
         | Some w' \<Rightarrow>
             state w' = network_client_closed \<and>
             filter (\<lambda>e. e = Tls_free 7 \<or> e = Tls_client (Some 7)) (trace w') =
               [Tls_client (Some 7), Tls_free 7, Tls_free 7]))"
  by code_simp

text \<open>
  C6. The cursor should index the registry whenever the registry is not empty.
  \<^verbatim>\<open>network_client_remove_servers\<close> does not reset the cursor: after two servers, one
  firing of the timer (which moves the cursor to server 1), a clear and one new server, the
  registry holds one server and the cursor still names server 1. Reading the current service
  is then out of bounds, and so is the completion of the resolution that is under way.
\<close>

theorem cursor_out_of_range_after_remove_servers:
  "(case run [Add_server ''a:1'' [] zeroed, Add_server ''b:2'' [] zeroed, Timer_fires 0,
              Remove_servers, Add_server ''c:3'' [] zeroed]
          network_client_new of
      None \<Rightarrow> False
    | Some w \<Rightarrow>
        num_servers w = 1 \<and> map_option length (servers w) = Some 1 \<and>
        curr_server w = 1 \<and> get_curr_service w = None \<and>
        run [Getaddrinfo_done (- 1) None 0] w = None)"
  by code_simp

text \<open>
  In general, clearing the registry leaves the cursor where it was.
\<close>

lemma remove_servers_keeps_cursor:
  assumes "network_client_remove_servers nc = Some (r, nc')"
  shows "curr_server nc' = curr_server nc \<and> curr_service nc' = curr_service nc"
  using remove_servers_changes [OF assms] by auto

text \<open>
  C7. Take a registry whose servers each hold at least one service (as every parsed server
  does) and a cursor that points at one of its (server, service) pairs. Advancing the
  selector as many times as there are pairs selects every pair exactly once: the cursors
  selected are the enumeration of all pairs, server by server and service by service,
  rotated to start just after the starting cursor. So all services of a server are selected
  in a row before the next server is entered. With a single server every selected cursor
  keeps the server index.
\<close>

theorem round_robin_visits_every_pair_once:
  assumes "servers nc = Some xs" and "0 < num_servers nc"
    and "nat (num_servers nc) \<le> length xs"
    and "list_all (\<lambda>s. 1 \<le> num_services s) (take (nat (num_servers nc)) xs)"
    and "0 \<le> curr_server nc" and "curr_server nc < num_servers nc"
    and "0 \<le> curr_service nc"
    and "curr_service nc < num_services (xs ! nat (curr_server nc))"
  shows "\<exists>vs. visits (sum_list (service_counts nc)) nc = Some vs \<and>
           vs = map int_pair
                  (rotate (Suc (cursor_pos (service_counts nc)
                                  (nat (curr_server nc)) (nat (curr_service nc))))
                     (all_pairs (service_counts nc))) \<and>
           length vs = sum_list (service_counts nc) \<and>
           distinct vs \<and>
           set vs = {(i, j). 0 \<le> i \<and> i < num_servers nc \<and>
                             0 \<le> j \<and> j < num_services (xs ! nat i)} \<and>
           (num_servers nc = 1 \<longrightarrow>
              (\<forall>k. \<exists>us. visits k nc = Some us \<and> list_all (\<lambda>v. fst v = curr_server nc) us))"
proof -
  let ?cs = "service_counts nc"
  let ?i = "nat (curr_server nc)"
  let ?j = "nat (curr_service nc)"
  let ?vs = "map int_pair (rotate (Suc (cursor_pos ?cs ?i ?j)) (all_pairs ?cs))"
  have sel: "selector_at nc xs ?i ?j"
    using assms by (simp add: selector_at_def)
  note c = selector_counts [OF sel]
  have "visits (sum_list ?cs) nc =
          Some (map (\<lambda>m. int_pair (all_pairs ?cs ! ((Suc (cursor_pos ?cs ?i ?j) + m) mod
                       length (all_pairs ?cs))))
                  [0..<length (all_pairs ?cs)])"
    using visits_nth [OF sel, of "sum_list ?cs"] by (simp add: length_all_pairs)
  also have "\<dots> = Some ?vs"
    using rotate_as_map [of "all_pairs ?cs" "Suc (cursor_pos ?cs ?i ?j)", symmetric]
    by (simp add: comp_def)
  finally have 1: "visits (sum_list ?cs) nc = Some ?vs" .
  have 2: "length ?vs = sum_list ?cs" by (simp add: length_all_pairs)
  have "inj_on int_pair (set (all_pairs ?cs))"
    by (rule inj_on_subset [OF inj_int_pair]) simp
  then have 3: "distinct ?vs"
    by (simp add: distinct_map distinct_all_pairs)
  have "set (all_pairs ?cs) = {(i, j). i < nat (num_servers nc) \<and> int j < num_services (xs ! i)}"
    using c(1) c(2) by (auto simp: set_all_pairs zless_nat_eq_int_zless)
  then have 4: "set ?vs = {(i, j). 0 \<le> i \<and> i < num_servers nc \<and>
                             0 \<le> j \<and> j < num_services (xs ! nat i)}"
    using int_pair_image [of "nat (num_servers nc)" "\<lambda>i. num_services (xs ! i)"] assms(2)
    by simp
  have 5: "\<exists>us. visits k nc = Some us \<and> list_all (\<lambda>v. fst v = curr_server nc) us"
    if one: "num_servers nc = 1" for k
  proof -
    have l: "length ?cs = 1" using c(1) one by simp
    have "fst (int_pair (all_pairs ?cs ! q)) = curr_server nc" if "q < sum_list ?cs" for q
    proof -
      have "all_pairs ?cs ! q \<in> set (all_pairs ?cs)"
        using that by (simp add: length_all_pairs)
      then have "fst (all_pairs ?cs ! q) = 0"
        using l by (auto simp: set_all_pairs)
      moreover have "curr_server nc = 0" using assms(5,6) one by simp
      ultimately show ?thesis by (simp add: int_pair_def)
    qed
    moreover have "0 < sum_list ?cs"
      using cursor_pos_less [OF c(4,5)] by simp
    ultimately show ?thesis
      using visits_nth [OF sel, of k] by (simp add: list_all_iff)
  qed
  from 1 2 3 4 5 show ?thesis by blast
qed

theorem round_robin_visits_every_pair_once_witness:
  "\<exists>nc. run [Add_server ''udp://10.0.0.5:53,5353'' [] zeroed, Add_server ''tcp://b:80'' [] zeroed]
           network_client_new = Some nc \<and>
         visits 3 nc = Some [(0, 1), (1, 0), (0, 0)]"
proof -
  have "(case run [Add_server ''udp://10.0.0.5:53,5353'' [] zeroed, Add_server ''tcp://b:80'' [] zeroed]
           network_client_new of
          None \<Rightarrow> False
        | Some nc \<Rightarrow>
            (case servers nc of
               None \<Rightarrow> False
             | Some xs \<Rightarrow>
                 0 < num_servers nc \<and> nat (num_servers nc) \<le> length xs \<and>
                 list_all (\<lambda>s. 1 \<le> num_services s) (take (nat (num_servers nc)) xs) \<and>
                 0 \<le> curr_server nc \<and> curr_server nc < num_servers nc \<and>
                 0 \<le> curr_service nc \<and>
                 curr_service nc < num_services (xs ! nat (curr_server nc)) \<and>
                 service_counts nc = [2, 1] \<and> curr_server nc = 0 \<and> curr_service nc = 0))"
    by code_simp
  then obtain nc xs where
    r: "run [Add_server ''udp://10.0.0.5:53,5353'' [] zeroed, Add_server ''tcp://b:80'' [] zeroed]
          network_client_new = Some nc" and
    h: "servers nc = Some xs" "0 < num_servers nc" "nat (num_servers nc) \<le> length xs"
       "list_all (\<lambda>s. 1 \<le> num_services s) (take (nat (num_servers nc)) xs)"
       "0 \<le> curr_server nc" "curr_server nc < num_servers nc" "0 \<le> curr_service nc"
       "curr_service nc < num_services (xs ! nat (curr_server nc))" and
    c: "service_counts nc = [2, 1]" "curr_server nc = 0" "curr_service nc = 0"
    by (auto split: option.splits)
  have "map int_pair (rotate (Suc (cursor_pos [2, 1] 0 0)) (all_pairs [2, 1])) =
        [(0, 1), (1, 0), (0, 0)]"
    by code_simp
  with round_robin_visits_every_pair_once [OF h] c r show ?thesis by auto
qed

text \<open>
  C8. Behind the guard of \<^verbatim>\<open>reconnect_cb\<close> at most one operation (resolution, transport
  connect, handshake step) should be outstanding. The handshake steps are driven by poll
  watchers; \<^verbatim>\<open>connect_tcp_cb\<close> starts one for every TLS connect and no code path stops
  one: \<^verbatim>\<open>set_closed\<close> frees the TLS session and leaves its watcher armed. The run below
  registers a TLS server, connects, completes the handshake, closes the connection and
  lets the timer fire again: a resolution is outstanding beside the watcher of the closed
  connection, two operations. When the transport connect of that second attempt completes
  a second watcher is armed, the state is Connecting and \<^verbatim>\<open>tls_state\<close> asks for a retry:
  either watcher will take a handshake step.
\<close>

theorem stale_poll_watcher_second_operation:
  "(case run [Add_server ''tls://c2.example.com:443'' [] zeroed, Timer_fires 0,
              Getaddrinfo_done 0 (Some 5) 0, Connect_done 0 (Some 7) True TLS_READ_AGAIN,
              Poll_ready 0, Close_request, Close_done, Timer_fires 0]
          network_client_new of
      None \<Rightarrow> False
    | Some w \<Rightarrow>
        state w = network_client_resolving \<and>
        getaddrinfo_reqs w = 1 \<and> poll_watchers w = 1 \<and> in_flight w = 2 \<and>
        (case run [Getaddrinfo_done 0 (Some 6) 0, Connect_done 0 (Some 8) True TLS_READ_AGAIN] w of
           None \<Rightarrow> False
         | Some w' \<Rightarrow>
             state w' = network_client_connecting \<and> tls_state w' = TLS_READ_AGAIN \<and>
             poll_watchers w' = 2 \<and> in_flight w' = 2))"
  by code_simp

text \<open>
  What holds of the guard. A firing of the reconnect timer while the state is not Closed, or
  while no server is registered, returns the client as it is: no field changes, nothing is
  issued. In every state reached from a fresh client by any sequence of events, at most
  one resolution or transport connect is outstanding, and while one is outstanding a
  readiness notification takes no handshake step. The operations outstanding are these
  requests and one poll watcher for every \<^verbatim>\<open>uv_poll_start\<close> made so far.
\<close>

lemma reconnect_gate_single_request:
  "(state nc \<noteq> network_client_closed \<or> num_servers nc = 0 \<longrightarrow> reconnect_cb nc rc = Some nc) \<and>
   (run evs network_client_new = Some w \<longrightarrow>
      getaddrinfo_reqs w + connect_reqs w \<le> 1 \<and>
      (0 < getaddrinfo_reqs w + connect_reqs w \<longrightarrow> (\<forall>hs. on_poll w hs = w)) \<and>
      in_flight w =
        getaddrinfo_reqs w + connect_reqs w + length (filter is_poll_start (trace w)))"
proof -
  have "reconnect_cb nc rc = Some nc"
    if "state nc \<noteq> network_client_closed \<or> num_servers nc = 0"
    using that by (simp add: reconnect_cb_def)
  moreover have "getaddrinfo_reqs w + connect_reqs w \<le> 1 \<and>
      (0 < getaddrinfo_reqs w + connect_reqs w \<longrightarrow> (\<forall>hs. on_poll w hs = w)) \<and>
      in_flight w =
        getaddrinfo_reqs w + connect_reqs w + length (filter is_poll_start (trace w))"
    if "run evs network_client_new = Some w"
  proof -
    have inv: "loop_inv w" using loop_inv_run [OF loop_inv_new that] .
    from loop_inv_requests [OF inv] show ?thesis by (simp add: in_flight_def)
  qed
  ultimately show ?thesis by blast
qed

lemma reconnect_gate_single_request_example:
  "\<exists>w. run [Add_server ''tcp://127.0.0.1:9999'' [] zeroed, Timer_fires 0] network_client_new = Some w \<and>
       state w = network_client_resolving \<and> reconnect_cb w 0 = Some w \<and>
       getaddrinfo_reqs w = 1 \<and> connect_reqs w = 0 \<and> on_poll w 0 = w \<and> in_flight w = 1"
proof -
  let ?evs = "[Add_server ''tcp://127.0.0.1:9999'' [] zeroed, Timer_fires 0]"
  have "(case run ?evs network_client_new of
           None \<Rightarrow> False
         | Some w \<Rightarrow>
             state w = network_client_resolving \<and> getaddrinfo_reqs w = 1 \<and>
             connect_reqs w = 0 \<and> filter is_poll_start (trace w) = [])"
    by code_simp
  then obtain w where
    r: "run ?evs network_client_new = Some w" and
    h: "state w = network_client_resolving" "getaddrinfo_reqs w = 1" "connect_reqs w = 0"
       "filter is_poll_start (trace w) = []"
    by (auto split: option.splits)
  from reconnect_gate_single_request [of w 0 ?evs w] r h show ?thesis by simp
qed



text \<open>
  C10. With a connect callback registered: for a UDP target, a successful resolution
  invokes the callback while the state is still Resolving and sets Connected afterwards; for
  a TCP target, a successful transport connect sets Connected first and then invokes the
  callback.
\<close>

theorem connect_cb_order_udp_tcp:
  assumes "deref_server nc (get_curr_server nc) = Some s" and "connect_cb nc = Some f"
  shows "(proto s = network_client_proto_udp \<and> 0 \<le> status \<and>
            state nc = network_client_resolving \<longrightarrow>
          (\<exists>nc'. resolving_cb nc status ai rc = Some nc' \<and>
                 state nc' = network_client_connected \<and>
                 trace nc' = trace nc @
                   [Uv_udp_init, Call_connect_cb f (connect_cb_arg nc) network_client_resolving])) \<and>
         (proto s = network_client_proto_tcp \<longrightarrow>
          (\<exists>nc'. connect_tcp_cb nc 0 tls_new fileno_ok hs = Some nc' \<and>
                 state nc' = network_client_connected \<and>
                 trace nc' = trace nc @
                   [Call_connect_cb f (connect_cb_arg nc) network_client_connected]))"
proof (intro conjI impI)
  assume h: "proto s = network_client_proto_udp \<and> 0 \<le> status \<and>
         state nc = network_client_resolving"
  have d: "deref_server (nc\<lparr>addrinfo := ai\<rparr>) (get_curr_server nc) = Some s"
    using assms(1) deref_server_frame [of "nc\<lparr>addrinfo := ai\<rparr>" nc] by simp
  show "\<exists>nc'. resolving_cb nc status ai rc = Some nc' \<and>
              state nc' = network_client_connected \<and>
              trace nc' = trace nc @
                [Uv_udp_init, Call_connect_cb f (connect_cb_arg nc) network_client_resolving]"
    using h d assms(2)
    by (simp add: resolving_cb_def connect_udp_def call_connect_cb_def emit_def Let_def)
next
  assume "proto s = network_client_proto_tcp"
  then show "\<exists>nc'. connect_tcp_cb nc 0 tls_new fileno_ok hs = Some nc' \<and>
              state nc' = network_client_connected \<and>
              trace nc' = trace nc @
                [Call_connect_cb f (connect_cb_arg nc) network_client_connected]"
    using assms by (simp add: connect_tcp_cb_def call_connect_cb_def emit_def Let_def)
qed

theorem connect_cb_order_udp_tcp_witness:
  "\<exists>u t u' t'.
     run [Add_server ''udp://a:53'' [] zeroed, Set_connect_cb (Some 1) 2, Timer_fires 0]
       network_client_new = Some u \<and>
     resolving_cb u 0 (Some 5) 0 = Some u' \<and> state u' = network_client_connected \<and>
     trace u' = trace u @ [Uv_udp_init, Call_connect_cb 1 2 network_client_resolving] \<and>
     run [Add_server ''tcp://b:80'' [] zeroed, Set_connect_cb (Some 1) 2, Timer_fires 0,
          Getaddrinfo_done 0 (Some 5) 0]
       network_client_new = Some t \<and>
     connect_tcp_cb t 0 None True 0 = Some t' \<and> state t' = network_client_connected \<and>
     trace t' = trace t @ [Call_connect_cb 1 2 network_client_connected]"
proof -
  have "(case run [Add_server ''udp://a:53'' [] zeroed, Set_connect_cb (Some 1) 2, Timer_fires 0]
           network_client_new of
          None \<Rightarrow> False
        | Some u \<Rightarrow>
            map_option proto (deref_server u (get_curr_server u)) = Some network_client_proto_udp \<and>
            connect_cb u = Some 1 \<and> connect_cb_arg u = 2 \<and>
            state u = network_client_resolving)"
    by code_simp
  then obtain u su where
    u: "run [Add_server ''udp://a:53'' [] zeroed, Set_connect_cb (Some 1) 2, Timer_fires 0]
           network_client_new = Some u" and
    du: "deref_server u (get_curr_server u) = Some su" and
    cu: "connect_cb u = Some 1" and
    pu: "proto su = network_client_proto_udp" "connect_cb_arg u = 2"
        "state u = network_client_resolving"
    by (auto split: option.splits)
  have "(case run [Add_server ''tcp://b:80'' [] zeroed, Set_connect_cb (Some 1) 2, Timer_fires 0,
                   Getaddrinfo_done 0 (Some 5) 0]
           network_client_new of
          None \<Rightarrow> False
        | Some t \<Rightarrow>
            map_option proto (deref_server t (get_curr_server t)) = Some network_client_proto_tcp \<and>
            connect_cb t = Some 1 \<and> connect_cb_arg t = 2)"
    by code_simp
  then obtain t st where
    t: "run [Add_server ''tcp://b:80'' [] zeroed, Set_connect_cb (Some 1) 2, Timer_fires 0,
             Getaddrinfo_done 0 (Some 5) 0]
           network_client_new = Some t" and
    dt: "deref_server t (get_curr_server t) = Some st" and
    ct: "connect_cb t = Some 1" and
    pt: "proto st = network_client_proto_tcp" "connect_cb_arg t = 2"
    by (auto split: option.splits)
  from connect_cb_order_udp_tcp [OF du cu, where status = 0 and ai = "Some 5" and rc = 0] pu
  obtain u' where
    "resolving_cb u 0 (Some 5) 0 = Some u'" "state u' = network_client_connected"
    "trace u' = trace u @ [Uv_udp_init, Call_connect_cb 1 2 network_client_resolving]"
    by auto
  moreover from connect_cb_order_udp_tcp [OF dt ct, where tls_new = None and fileno_ok = True and hs = 0] pt
  obtain t' where
    "connect_tcp_cb t 0 None True 0 = Some t'" "state t' = network_client_connected"
    "trace t' = trace t @ [Call_connect_cb 1 2 network_client_connected]"
    by auto
  ultimately show ?thesis using u t by blast
qed

end
